theory Spec2Isabelle
  imports Main "HOL-Library.Word" "HOL-Library.Sublist"
begin

unbundle bit_operations_syntax

section \<open>jobhog: borrowing and returning jobserver tokens\<close>

text \<open>
  A shallow embedding of \<^verbatim>\<open>src/jobhog.c\<close>. Each C function is a HOL function of the same
  name. What the operating system answers to a system call is not decided by the program,
  so it is an input: a \<open>world\<close> record holds the return values of \<^verbatim>\<open>fcntl\<close>,
  \<^verbatim>\<open>open\<close>, \<^verbatim>\<open>pipe\<close>, \<^verbatim>\<open>fork\<close> and \<^verbatim>\<open>execvp\<close>, the state of the jobserver pipe, and
  scripts of what the kernel answers to each \<^verbatim>\<open>write\<close> on the jobserver's write end and to
  each \<^verbatim>\<open>read\<close> on the auxiliary pipe. The process itself is a record \<open>proc\<close>: the two
  globals \<^verbatim>\<open>rfd\<close> and \<^verbatim>\<open>wfd\<close>, the set of open descriptors, the value of
  \<^verbatim>\<open>MAKEFLAGS\<close>, and the log of the system calls made so far.
\<close>

subsection \<open>Constants of the system headers\<close>

type_synonym u32 = "32 word"

datatype errno = EAGAIN | EINTR | EBADF | EPIPE | EIO | ENOENT | EACCES | ENOMEM

definition EX_OK :: int where "EX_OK = 0"
definition EX_USAGE :: int where "EX_USAGE = 64"
definition EX_OSERR :: int where "EX_OSERR = 71"

text \<open>
  The values of \<^verbatim>\<open>O_RDONLY\<close>, \<^verbatim>\<open>O_NONBLOCK\<close> (octal 04000) and \<^verbatim>\<open>O_CLOEXEC\<close> (octal
  02000000) in Linux's \<^verbatim>\<open>fcntl.h\<close>.
\<close>

definition O_RDONLY :: int where "O_RDONLY = 0"
definition O_NONBLOCK :: int where "O_NONBLOCK = 2048"
definition O_CLOEXEC :: int where "O_CLOEXEC = 524288"

subsection \<open>C strings\<close>

text \<open>
  A C string is modelled by its characters before the terminating NUL. \<open>strstr\<close> gives the
  offset of the first occurrence of the needle, where C returns a pointer to it.
\<close>

definition starts_with :: "string \<Rightarrow> string \<Rightarrow> bool" where
  "starts_with s needle = (take (length needle) s = needle)"

fun strstr :: "string \<Rightarrow> string \<Rightarrow> nat option" where
  "strstr [] needle = (if needle = [] then Some 0 else None)"
| "strstr (c # cs) needle =
     (if starts_with (c # cs) needle then Some 0
      else map_option Suc (strstr cs needle))"

text \<open>\<^verbatim>\<open>strchr(s, c)\<close>: the offset of the first \<open>c\<close> in \<open>s\<close>.\<close>

fun strchr :: "string \<Rightarrow> char \<Rightarrow> nat option" where
  "strchr [] c = None"
| "strchr (x # xs) c = (if x = c then Some 0 else map_option Suc (strchr xs c))"

text \<open>
  \<^verbatim>\<open>printf("%u")\<close> and \<^verbatim>\<open>printf("%d")\<close>: the decimal text of a number, without leading
  zeros.
\<close>

fun decimal :: "nat \<Rightarrow> string" where
  "decimal n =
     (if n < 10 then [''0123456789'' ! n]
      else decimal (n div 10) @ [''0123456789'' ! (n mod 10)])"

declare decimal.simps [simp del]

definition decimal_int :: "int \<Rightarrow> string" where
  "decimal_int i = (if i < 0 then CHR ''-'' # decimal (nat (- i)) else decimal (nat i))"

text \<open>
  \<^verbatim>\<open>sscanf\<close>'s \<^verbatim>\<open>%d\<close>: white space is skipped, then an optional sign and at least one
  decimal digit are read. The result is the number and the rest of the input, or \<open>None\<close>
  when no number stands there. (A number that does not fit an \<^verbatim>\<open>int\<close> is undefined
  behaviour in C; the model gives its mathematical value.)
\<close>

definition isspace :: "char \<Rightarrow> bool" where
  "isspace c = (c \<in> set [CHR '' '', CHR 0x09, CHR 0x0A, CHR 0x0B, CHR 0x0C, CHR 0x0D])"

definition isdigit :: "char \<Rightarrow> bool" where
  "isdigit c = (c \<in> set ''0123456789'')"

definition digit_val :: "char \<Rightarrow> nat" where
  "digit_val c = (of_char c - 48)"

definition digits_val :: "string \<Rightarrow> nat" where
  "digits_val ds = foldl (\<lambda>acc c. 10 * acc + digit_val c) 0 ds"

definition scan_d :: "string \<Rightarrow> (int \<times> string) option" where
  "scan_d s =
     (let s1 = dropWhile isspace s;
          neg = (s1 \<noteq> [] \<and> hd s1 = CHR ''-'');
          s2 = (if s1 \<noteq> [] \<and> (hd s1 = CHR ''-'' \<or> hd s1 = CHR ''+'') then tl s1 else s1);
          ds = takeWhile isdigit s2
      in if ds = [] then None
         else Some (if neg then - int (digits_val ds) else int (digits_val ds),
                    dropWhile isdigit s2))"

text \<open>
  \<^verbatim>\<open>sscanf(s, "=%d,%d", &rfd, &wfd)\<close>: the number of conversions done, and the two
  variables afterwards. A variable is assigned as soon as its conversion succeeds, so a
  lone first number changes \<^verbatim>\<open>rfd\<close> although the call reports one conversion only.
\<close>

definition sscanf_pair :: "string \<Rightarrow> int \<times> int \<Rightarrow> nat \<times> (int \<times> int)" where
  "sscanf_pair s v =
     (case s of
        [] \<Rightarrow> (0, v)
      | c # s0 \<Rightarrow>
          if c \<noteq> CHR ''='' then (0, v)
          else (case scan_d s0 of
                  None \<Rightarrow> (0, v)
                | Some (a, s1) \<Rightarrow>
                    (case s1 of
                       [] \<Rightarrow> (1, (a, snd v))
                     | c1 # s2 \<Rightarrow>
                         if c1 \<noteq> CHR '','' then (1, (a, snd v))
                         else (case scan_d s2 of
                                 None \<Rightarrow> (1, (a, snd v))
                               | Some (b, s3) \<Rightarrow> (2, (a, b))))))"

subsection \<open>The process and the world around it\<close>

text \<open>
  The log of a process: one entry per system call (and per call of \<^verbatim>\<open>error\<close>), with the
  arguments that matter and the value returned.
\<close>

datatype event =
    Fcntl int int
  | Open string int
  | Read int nat int
  | Write int nat int
  | Close int
  | Pipe "(int \<times> int) option"
  | Fork int
  | Unsetenv string
  | Execvp string "string list"
  | Error int "errno option" string

record proc =
  rfd :: int
  wfd :: int
  fds :: "int set"
  makeflags :: "string option"
  trace :: "event list"

text \<open>The state at the start of \<^verbatim>\<open>main\<close>: \<^verbatim>\<open>static int rfd = -1, wfd = -1\<close>.\<close>

definition start :: "string option \<Rightarrow> int set \<Rightarrow> proc" where
  "start env inherited =
     \<lparr>rfd = - 1, wfd = - 1, fds = inherited, makeflags = env, trace = []\<rparr>"

definition emit :: "event \<Rightarrow> proc \<Rightarrow> proc" where
  "emit e p = p\<lparr>trace := trace p @ [e]\<rparr>"

definition sys_close :: "int \<Rightarrow> proc \<Rightarrow> proc" where
  "sys_close fd p = emit (Close fd) (p\<lparr>fds := fds p - {fd}\<rparr>)"

text \<open>
  The jobserver pipe as the drainer's reads see it: \<open>queued\<close> token bytes, and what happens
  around each of the coming reads. Before a read other clients of the jobserver may put
  tokens back (\<open>Arrive\<close>) or take some (\<open>Depart\<close>); the read may fail (\<open>Fault\<close>); or it may
  report end of file (\<open>Eof\<close>). When the list is used up nothing else touches the pipe.

  A read takes the bytes queued, at most \<open>count\<close>. What a read of an empty pipe does
  depends on the mode of the descriptor's open file description: with \<^verbatim>\<open>O_NONBLOCK\<close> set
  (\<open>nonblock\<close>) it fails at once; otherwise it blocks, the process sleeps for as long as
  the other processes please, and the model follows it no further: the result is \<open>None\<close>.
\<close>

datatype action = Calm | Arrive nat | Depart nat | Fault errno | Eof

record channel =
  queued :: nat
  future :: "action list"

definition sys_read :: "bool \<Rightarrow> channel \<Rightarrow> nat \<Rightarrow> (int \<times> channel) option" where
  "sys_read nonblock ch count =
     (let a = (case future ch of [] \<Rightarrow> Calm | a # as \<Rightarrow> a);
          rest = tl (future ch)
      in case a of
           Fault e \<Rightarrow> Some (- 1, ch\<lparr>future := rest\<rparr>)
         | Eof \<Rightarrow> Some (0, ch\<lparr>future := rest\<rparr>)
         | _ \<Rightarrow>
             let q = (case a of Arrive n \<Rightarrow> queued ch + n
                              | Depart n \<Rightarrow> queued ch - n
                              | _ \<Rightarrow> queued ch)
             in if q = 0 then
                  (if nonblock then Some (- 1, \<lparr>queued = 0, future = rest\<rparr>) else None)
                else Some (int (min count q), \<lparr>queued = q - min count q, future = rest\<rparr>))"

text \<open>
  What the kernel answers to one \<^verbatim>\<open>write\<close> on the jobserver's write end: it takes up to
  \<open>k\<close> bytes of those offered (\<open>Accept k\<close>), or the call fails with an error number.
\<close>

datatype wevent = Accept nat | Refuse errno

definition sys_write :: "wevent \<Rightarrow> nat \<Rightarrow> int" where
  "sys_write e count = (case e of Accept k \<Rightarrow> int (min k count) | Refuse err \<Rightarrow> - 1)"

definition write_errno :: "wevent \<Rightarrow> errno option" where
  "write_errno e = (case e of Accept k \<Rightarrow> None | Refuse err \<Rightarrow> Some err)"

text \<open>
  What a blocking one-byte \<^verbatim>\<open>read\<close> on the auxiliary pipe returns: 0 at end of file (no
  process holds the write end any more), 1 when somebody wrote a byte into the pipe,
  -1 when the call fails.
\<close>

datatype aux_read = AuxEOF | AuxByte | AuxFail errno

definition aux_ret :: "aux_read \<Rightarrow> int" where
  "aux_ret a = (case a of AuxEOF \<Rightarrow> 0 | AuxByte \<Rightarrow> 1 | AuxFail e \<Rightarrow> - 1)"

text \<open>
  The answers of the operating system to one process. \<open>fork_ret\<close> is what \<^verbatim>\<open>fork\<close>
  returns in the process described: negative when it fails, 0 in the child, the child's
  process id in the parent. \<open>execvp_errno\<close> is \<open>None\<close> when the new image starts.
\<close>

record world =
  fcntl_ret :: int
  open_ret :: int
  jobserver :: channel
  pipe_ret :: "(int \<times> int) option"
  fork_ret :: int
  writes :: "wevent list"
  aux_reads :: "aux_read list"
  execvp_errno :: "errno option"

text \<open>
  How a process ends: \<^verbatim>\<open>exit\<close> with a status, a failed \<^verbatim>\<open>assert\<close>, or the new program
  image with its argument vector. A function either returns a value or ends the process.
\<close>

datatype outcome = Exit int | Abort | Exec string "string list"

datatype 'a flow = Return 'a | Stop outcome

subsection \<open>parse\_env\<close>

definition parse_env :: "proc \<Rightarrow> int flow \<times> proc" where
  "parse_env p =
     (case makeflags p of
        None \<Rightarrow> (Return (- 1), p)
      | Some env \<Rightarrow>
          (case (case strstr env ''--jobserver-auth='' of
                   Some i \<Rightarrow> Some i
                 | None \<Rightarrow> strstr env ''--jobserver-fds='') of
             None \<Rightarrow> (Return (- 1), p)
           | Some i \<Rightarrow>
               (case strchr (drop i env) (CHR ''='') of
                  None \<Rightarrow> (Stop Abort, p)
                | Some k \<Rightarrow>
                    (case sscanf_pair (drop (i + k) env) (rfd p, wfd p) of
                       (n, (a, b)) \<Rightarrow>
                         if n = 2 then (Return 0, p\<lparr>rfd := a, wfd := b\<rparr>)
                         else (Return (- 1), p\<lparr>rfd := a, wfd := b\<rparr>)))))"

subsection \<open>put\_tokens\<close>

text \<open>
  The loop consumes one answer of the kernel per \<^verbatim>\<open>write\<close>. It can go on for ever (on
  \<^verbatim>\<open>EAGAIN\<close> after \<^verbatim>\<open>EAGAIN\<close>); \<open>None\<close> is the run that needs more answers than the
  list holds.
\<close>

fun put_tokens :: "wevent list \<Rightarrow> u32 \<Rightarrow> proc \<Rightarrow> proc option" where
  "put_tokens [] tokens p = (if tokens = 0 then Some p else None)"
| "put_tokens (e # es) tokens p =
     (if tokens = 0 then Some p
      else
        let w = (if tokens > 8 then 8 else unat tokens);
            r = sys_write e w;
            p' = emit (Write (wfd p) w r) p
        in if r < 0 then
             (if write_errno e = Some EAGAIN \<or> write_errno e = Some EINTR
              then put_tokens es tokens p'
              else Some p')
           else put_tokens es (tokens - word_of_int r) p')"

subsection \<open>create\_child\<close>

text \<open>The child's \<^verbatim>\<open>while (read(pipefd[0], &d, 1) < 0) ;\<close>\<close>

fun wait_read :: "aux_read list \<Rightarrow> int \<Rightarrow> proc \<Rightarrow> proc option" where
  "wait_read [] fd p = None"
| "wait_read (a # as) fd p =
     (let r = aux_ret a;
          p' = emit (Read fd 1 r) p
      in if r < 0 then wait_read as fd p' else Some p')"

definition sys_pipe :: "(int \<times> int) option \<Rightarrow> proc \<Rightarrow> proc" where
  "sys_pipe ret p =
     emit (Pipe ret)
       (case ret of None \<Rightarrow> p | Some (a, b) \<Rightarrow> p\<lparr>fds := fds p \<union> {a, b}\<rparr>)"

text \<open>
  \<open>create_child\<close> describes the process it is evaluated for: with \<open>fork_ret w = 0\<close> it is
  the child, which never returns from the function but ends in \<^verbatim>\<open>_exit(EX_OK)\<close>.
\<close>

definition create_child :: "world \<Rightarrow> u32 \<Rightarrow> proc \<Rightarrow> (int flow \<times> proc) option" where
  "create_child w tokens p =
     (case pipe_ret w of
        None \<Rightarrow>
          map_option (Pair (Return 0)) (put_tokens (writes w) tokens (sys_pipe None p))
      | Some (pipefd0, pipefd1) \<Rightarrow>
          let p1 = emit (Fork (fork_ret w)) (sys_pipe (Some (pipefd0, pipefd1)) p)
          in if fork_ret w < 0 then
               map_option (Pair (Return 0))
                 (put_tokens (writes w) tokens (sys_close pipefd1 (sys_close pipefd0 p1)))
             else if fork_ret w = 0 then
               (case wait_read (aux_reads w) pipefd0 (sys_close pipefd1 p1) of
                  None \<Rightarrow> None
                | Some p2 \<Rightarrow>
                    map_option (Pair (Stop (Exit EX_OK))) (put_tokens (writes w) tokens p2))
             else Some (Return (sint tokens), sys_close pipefd0 p1))"

subsection \<open>get\_tokens\<close>

definition sys_open :: "string \<Rightarrow> int \<Rightarrow> proc \<Rightarrow> proc" where
  "sys_open path ret p =
     emit (Open path ret) (if ret < 0 then p else p\<lparr>fds := fds p \<union> {ret}\<rparr>)"

text \<open>
  The loop \<^verbatim>\<open>while (tokens < 500)\<close> of \<open>get_tokens\<close>, reading from \<open>fd\<close>, whose open file
  description has \<^verbatim>\<open>O_NONBLOCK\<close> set or not (\<open>nonblock\<close>). \<open>None\<close>: a read has blocked.
\<close>

function drain :: "bool \<Rightarrow> int \<Rightarrow> channel \<Rightarrow> u32 \<Rightarrow> proc \<Rightarrow> (u32 \<times> channel \<times> proc) option" where
  "drain nonblock fd ch tokens p =
     (if tokens < 500 then
        (case sys_read nonblock ch 8 of
           None \<Rightarrow> None
         | Some (r, ch') \<Rightarrow>
             if r \<le> 0 then Some (tokens, ch', emit (Read fd 8 r) p)
             else drain nonblock fd ch' (tokens + word_of_int r) (emit (Read fd 8 r) p))
      else Some (tokens, ch, p))"
  by pat_completeness auto

lemma sys_read_le: "sys_read nonblock ch count = Some (r, ch') \<Longrightarrow> r \<le> int count"
  by (auto simp: sys_read_def Let_def split: action.splits list.splits if_splits)

lemma unat_small:
  assumes "0 \<le> r" and "r \<le> 8"
  shows "unat (word_of_int r :: u32) = nat r"
  using assms by (simp add: unat_eq_nat_uint uint_word_of_int take_bit_eq_mod)

lemma drain_step_unat:
  fixes tokens :: u32
  assumes "tokens < 500" and "0 < r" and "r \<le> 8"
  shows "unat (tokens + word_of_int r) = unat tokens + nat r"
proof -
  have t: "unat tokens < 500"
    using assms(1) by (simp add: word_less_nat_alt)
  have "unat (tokens + word_of_int r) = unat tokens + unat (word_of_int r :: u32)"
    using t assms by (subst unat_add_lem [THEN iffD1]) (simp_all add: unat_small)
  then show ?thesis
    using assms by (simp add: unat_small)
qed

termination drain
  apply (relation "measure (\<lambda>(nonblock, fd, ch, tokens, p). 500 - unat tokens)")
   apply simp
  subgoal for nonblock fd ch tokens p x r ch'
    using sys_read_le [of nonblock ch 8 r ch'] drain_step_unat [of tokens r]
    by (auto simp: word_less_nat_alt)
  done

declare drain.simps [simp del]

text \<open>
  Lines 146 to 162 of \<open>get_tokens\<close>: drain through \<open>fd\<close>, close it when it is the
  re-opened descriptor, and hand the tokens to \<open>create_child\<close>.
\<close>

definition drain_and_fork :: "world \<Rightarrow> bool \<Rightarrow> int \<Rightarrow> proc \<Rightarrow> (u32 flow \<times> proc) option" where
  "drain_and_fork w nonblock fd p =
     (case drain nonblock fd (jobserver w) 0 p of
        None \<Rightarrow> None
      | Some (tokens, ch, p1) \<Rightarrow>
          let p2 = (if fd \<noteq> rfd p1 then sys_close fd p1 else p1)
          in if tokens \<noteq> 0 then
               (case create_child w tokens p2 of
                  None \<Rightarrow> None
                | Some (Return r, p3) \<Rightarrow> Some (Return (word_of_int r), p3)
                | Some (Stop out, p3) \<Rightarrow> Some (Stop out, p3))
             else Some (Return tokens, p2))"

text \<open>
  \<open>get_tokens\<close> reads through a descriptor in non-blocking mode: through \<^verbatim>\<open>rfd\<close> when
  \<^verbatim>\<open>fcntl\<close> reports \<^verbatim>\<open>O_NONBLOCK\<close> for it, else through a descriptor of its own that
  \<^verbatim>\<open>open\<close> creates with the flags \<^verbatim>\<open>O_RDONLY | O_NONBLOCK | O_CLOEXEC\<close>. The mode handed to
  the loop is the one the kernel keeps for the descriptor: the flags \<^verbatim>\<open>fcntl\<close> has
  reported for \<^verbatim>\<open>rfd\<close>, the flags given to \<^verbatim>\<open>open\<close> for the new one.
\<close>

definition get_tokens :: "world \<Rightarrow> proc \<Rightarrow> (u32 flow \<times> proc) option" where
  "get_tokens w p =
     (case parse_env p of
        (Stop out, p1) \<Rightarrow> Some (Stop out, p1)
      | (Return e, p1) \<Rightarrow>
          if e < 0 then Some (Return 0, p1)
          else
            let flags = fcntl_ret w;
                p2 = emit (Fcntl (rfd p1) flags) p1
            in if flags < 0 then Some (Return 0, p2)
               else if flags AND O_NONBLOCK = 0 then
                 let oflags = O_RDONLY OR O_NONBLOCK OR O_CLOEXEC;
                     fd = open_ret w;
                     p3 = sys_open (''/proc/self/fd/'' @ decimal_int (rfd p2)) fd p2
                 in if fd < 0 then Some (Return 0, p3)
                    else drain_and_fork w (oflags AND O_NONBLOCK \<noteq> 0) fd p3
               else drain_and_fork w (flags AND O_NONBLOCK \<noteq> 0) (rfd p2) p2)"

subsection \<open>find\_hashes and main\<close>

text \<open>
  \<open>find_hashes\<close> returns the pointer \<open>h\<close> as the index of the argument (counted from the
  vector it is given, \<^verbatim>\<open>&argv[2]\<close> in \<open>main\<close>) and the offset inside it.
\<close>

fun find_hashes :: "string list \<Rightarrow> (nat \<times> nat) option" where
  "find_hashes [] = None"
| "find_hashes (a # as) =
     (case strstr a ''###'' of
        Some j \<Rightarrow> Some (0, j)
      | None \<Rightarrow> map_option (\<lambda>(i, j). (Suc i, j)) (find_hashes as))"

text \<open>
  Memory is a list of bytes. An argument \<open>a\<close> lies in memory as \<open>a @ [NUL]\<close>; \<open>c_str\<close> reads
  the string that starts a piece of memory, up to its first NUL. \<open>memcpy mem off src n\<close>
  is \<^verbatim>\<open>memcpy(mem + off, src, n)\<close>, and \<open>memmove mem dst src n\<close> is
  \<^verbatim>\<open>memmove(mem + dst, mem + src, n)\<close>, which copies as if through a buffer.
\<close>

definition NUL :: char where
  "NUL = CHR 0x00"

definition c_str :: "char list \<Rightarrow> string" where
  "c_str mem = takeWhile (\<lambda>c. c \<noteq> NUL) mem"

definition strlen :: "char list \<Rightarrow> nat" where
  "strlen mem = length (c_str mem)"

definition memcpy :: "char list \<Rightarrow> nat \<Rightarrow> char list \<Rightarrow> nat \<Rightarrow> char list" where
  "memcpy mem off src n = take off mem @ take n src @ drop (off + n) mem"

definition memmove :: "char list \<Rightarrow> nat \<Rightarrow> nat \<Rightarrow> nat \<Rightarrow> char list" where
  "memmove mem dst src n = take dst mem @ take n (drop src mem) @ drop (dst + n) mem"

definition sys_unsetenv :: "proc \<Rightarrow> proc" where
  "sys_unsetenv p = emit (Unsetenv ''MAKEFLAGS'') (p\<lparr>makeflags := None\<rparr>)"

text \<open>
  Lines 193 to 203 of \<open>main\<close>, for the argument \<open>a\<close> with \<open>h\<close> at offset \<open>j\<close>:
  \<^verbatim>\<open>snprintf\<close> leaves the first three characters of the number and a NUL in \<open>buf\<close> and
  returns the number's full length. The result is the argument as it reads afterwards;
  \<open>None\<close> is a failed \<^verbatim>\<open>assert\<close>.
\<close>

definition rewrite :: "string \<Rightarrow> nat \<Rightarrow> u32 \<Rightarrow> string option" where
  "rewrite a j tokens =
     (let buf = take 3 (decimal (unat (tokens + 1))) @ [NUL];
          p = length (decimal (unat (tokens + 1)))
      in if \<not> p \<le> 3 then None
         else
           let mem = a @ [NUL];
               len = strlen (drop j mem) + 1
           in if \<not> len \<ge> 4 then None
              else Some (c_str (memmove (memcpy mem j buf p) (j + p) (j + 3) (len - 3))))"

text \<open>
  Lines 205 to 211 of \<open>main\<close>: the environment variable is removed, the two descriptors
  are closed, and \<^verbatim>\<open>execvp\<close> starts the command; when it returns, it has failed.
\<close>

definition launch :: "world \<Rightarrow> string list \<Rightarrow> proc \<Rightarrow> outcome \<times> string list \<times> proc" where
  "launch w argv p1 =
     (let p2 = sys_unsetenv p1;
          p3 = (if rfd p2 \<ge> 0 then sys_close (rfd p2) p2 else p2);
          p4 = (if wfd p3 \<ge> 0 then sys_close (wfd p3) p3 else p3);
          p5 = emit (Execvp (argv ! 1) (drop 1 argv)) p4
      in case execvp_errno w of
           None \<Rightarrow> (Exec (argv ! 1) (drop 1 argv), argv, p5)
         | Some e \<Rightarrow>
             (Exit EX_OSERR, argv,
              emit (Error EX_OSERR (Some e) (''execvp('' @ argv ! 1 @ '') failed'')) p5))"

text \<open>
  \<open>main\<close> gives the way the process ends, the argument vector at that moment, and the
  state of the process; \<open>None\<close> when it never gets there.
\<close>

definition main :: "world \<Rightarrow> string list \<Rightarrow> proc \<Rightarrow> (outcome \<times> string list \<times> proc) option" where
  "main w argv p =
     (if length argv < 2 then
        Some (Exit EX_USAGE, argv, emit (Error EX_USAGE None ''missing command'') p)
      else
        case (if length argv < 3 then None else find_hashes (drop 2 argv)) of
          None \<Rightarrow>
            Some (Exit EX_USAGE, argv, emit (Error EX_USAGE None ''missing ### argument'') p)
        | Some (i, j) \<Rightarrow>
            (case get_tokens w p of
               None \<Rightarrow> None
             | Some (Stop out, p1) \<Rightarrow> Some (out, argv, p1)
             | Some (Return tokens, p1) \<Rightarrow>
                 if \<not> tokens < 999 then Some (Abort, argv, p1)
                 else if \<not> starts_with (drop j (argv ! (i + 2))) ''###'' then
                   Some (Abort, argv, p1)
                 else
                   (case rewrite (argv ! (i + 2)) j tokens of
                      None \<Rightarrow> Some (Abort, argv, p1)
                    | Some a' \<Rightarrow> Some (launch w (argv[i + 2 := a']) p1))))"

text \<open>The whole program, from the environment and descriptors it inherits.\<close>

definition jobhog :: "world \<Rightarrow> string option \<Rightarrow> int set \<Rightarrow> string list
    \<Rightarrow> (outcome \<times> string list \<times> proc) option" where
  "jobhog w env inherited argv = main w argv (start env inherited)"

subsection \<open>The two processes after fork\<close>

text \<open>
  After a successful \<^verbatim>\<open>fork\<close> there are two processes, which go on from the same state
  with the same program: the parent, in which \<^verbatim>\<open>fork\<close> has returned the child's process
  id, and the child, in which it has returned 0. The run of the child is the run of the
  program in a world that gives the same answers up to the \<^verbatim>\<open>fork\<close> and 0 there.

  The child closes its copy of the write end of the auxiliary pipe at once, so the parent,
  and what \<^verbatim>\<open>execvp\<close> turns it into, is the only holder left, and jobhog itself never
  writes into that pipe. What the child's reads meet therefore depends on how the parent
  ends. When \<^verbatim>\<open>execvp\<close> succeeds, the command decides, and the list of the world says how.
  When the parent ends in \<^verbatim>\<open>exit\<close> or \<^verbatim>\<open>abort\<close>, the kernel closes its descriptors: reads
  that were interrupted meanwhile have failed, as the world lists them, and the first
  read that is not interrupted finds no writer and no byte, and returns 0.
\<close>

definition reads_after :: "outcome \<Rightarrow> aux_read list \<Rightarrow> aux_read list" where
  "reads_after out rs =
     (case out of
        Exec file args \<Rightarrow> rs
      | _ \<Rightarrow> takeWhile (\<lambda>a. aux_ret a < 0) rs @ [AuxEOF])"



subsection \<open>What a log shows\<close>

text \<open>
  \<open>written fd tr\<close> is the number of bytes the writes of \<open>tr\<close> put into \<open>fd\<close> (a failed
  write puts none). \<open>return_writes fd tr\<close> says that \<open>tr\<close> consists of writes to \<open>fd\<close> only,
  each offering between one and eight bytes. \<open>waits fd tr\<close> says that \<open>tr\<close> consists of
  one-byte reads from \<open>fd\<close> only, \<open>reads fd tr\<close> that it consists of eight-byte reads from
  \<open>fd\<close> only, and \<open>closes fd tr\<close> that \<open>fd\<close> is closed somewhere in \<open>tr\<close>.
\<close>

definition written :: "int \<Rightarrow> event list \<Rightarrow> nat" where
  "written fd tr =
     sum_list (map (\<lambda>e. case e of Write f c r \<Rightarrow> if f = fd then nat r else 0 | _ \<Rightarrow> 0) tr)"

definition return_writes :: "int \<Rightarrow> event list \<Rightarrow> bool" where
  "return_writes fd tr =
     list_all (\<lambda>e. case e of Write f c r \<Rightarrow> f = fd \<and> 1 \<le> c \<and> c \<le> 8 \<and> r \<le> int c | _ \<Rightarrow> False) tr"

definition waits :: "int \<Rightarrow> event list \<Rightarrow> bool" where
  "waits fd tr = list_all (\<lambda>e. case e of Read f c r \<Rightarrow> f = fd \<and> c = 1 | _ \<Rightarrow> False) tr"

definition reads :: "int \<Rightarrow> event list \<Rightarrow> bool" where
  "reads fd tr = list_all (\<lambda>e. case e of Read f c r \<Rightarrow> f = fd \<and> c = 8 | _ \<Rightarrow> False) tr"

definition closes :: "int \<Rightarrow> event list \<Rightarrow> bool" where
  "closes fd tr = (Close fd \<in> set tr)"

text \<open>
  Two properties of the kernel's answers to the writes. \<open>transient ws\<close>: no write fails
  for good, that is with an error other than \<^verbatim>\<open>EAGAIN\<close> and \<^verbatim>\<open>EINTR\<close>. \<open>capacity ws\<close>: the
  bytes the answers of \<open>ws\<close> can take from writes of at most eight bytes.
\<close>

definition transient :: "wevent list \<Rightarrow> bool" where
  "transient ws = list_all (\<lambda>e. write_errno e \<in> {None, Some EAGAIN, Some EINTR}) ws"

definition capacity :: "wevent list \<Rightarrow> nat" where
  "capacity ws = sum_list (map (\<lambda>e. case e of Accept k \<Rightarrow> min k 8 | Refuse err \<Rightarrow> 0) ws)"

text \<open>
  Where a text is found. \<open>first_at needle s pre post\<close>: the first occurrence of \<open>needle\<close>
  in \<open>s\<close> stands between \<open>pre\<close> and \<open>post\<close>. \<open>marker_at argv k pre post\<close>: \<open>argv ! k\<close> is
  the first argument after the command name that contains \<^verbatim>\<open>###\<close>, and its first
  \<^verbatim>\<open>###\<close> stands between \<open>pre\<close> and \<open>post\<close>. \<open>c_strings argv\<close>: the arguments are C
  strings, that is, none holds a NUL. \<open>is_pair s\<close>: \<open>s\<close> begins with two decimal numbers
  with a comma between them, as \<^verbatim>\<open>%d,%d\<close> reads them.
\<close>

definition first_at :: "string \<Rightarrow> string \<Rightarrow> string \<Rightarrow> string \<Rightarrow> bool" where
  "first_at needle s pre post =
     (s = pre @ needle @ post \<and> \<not> sublist needle (pre @ butlast needle))"

definition marker_at :: "string list \<Rightarrow> nat \<Rightarrow> string \<Rightarrow> string \<Rightarrow> bool" where
  "marker_at argv k pre post =
     (2 \<le> k \<and> k < length argv \<and> first_at ''###'' (argv ! k) pre post
      \<and> list_all (\<lambda>a. \<not> sublist ''###'' a) (take (k - 2) (drop 2 argv)))"

definition c_strings :: "string list \<Rightarrow> bool" where
  "c_strings argv = list_all (\<lambda>a. NUL \<notin> set a) argv"

definition is_pair :: "string \<Rightarrow> bool" where
  "is_pair s =
     (case scan_d s of
        None \<Rightarrow> False
      | Some (a, s1) \<Rightarrow>
          (case s1 of [] \<Rightarrow> False | c # s2 \<Rightarrow> c = CHR '','' \<and> scan_d s2 \<noteq> None))"


definition give_up :: "world \<Rightarrow> proc \<Rightarrow> proc" where
  "give_up w p =
     (case pipe_ret w of
        None \<Rightarrow> p\<lparr>trace := trace p @ [Pipe None]\<rparr>
      | Some (a, b) \<Rightarrow>
          p\<lparr>fds := fds p - {a, b},
            trace := trace p @ [Pipe (Some (a, b)), Fork (fork_ret w), Close a, Close b]\<rparr>)"

subsection \<open>An example run\<close>

text \<open>
  The example of the program's header comment: \<^verbatim>\<open>jobhog mybuild -j### --flag\<close> under a
  \<^verbatim>\<open>make\<close> that advertises the descriptors 3 and 4, with 13 tokens in the pipe. The pipe is
  in blocking mode, so it is opened again as descriptor 5; \<^verbatim>\<open>pipe\<close> gives 5 and 6; the
  child has process id 4711; the jobserver takes the tokens back in three writes, one
  write being refused with \<^verbatim>\<open>EAGAIN\<close> first.
\<close>

definition example_world :: world where
  "example_world =
     \<lparr>fcntl_ret = 0, open_ret = 5, jobserver = \<lparr>queued = 13, future = []\<rparr>,
      pipe_ret = Some (5, 6), fork_ret = 4711,
      writes = [Accept 8, Refuse EAGAIN, Accept 3, Accept 20],
      aux_reads = [AuxFail EINTR, AuxEOF], execvp_errno = None\<rparr>"

definition example_env :: "string option" where
  "example_env = Some ''-j --jobserver-auth=3,4''"

definition example_argv :: "string list" where
  "example_argv = [''jobhog'', ''mybuild'', ''-j###'', ''--flag'']"

definition example_proc :: proc where
  "example_proc = \<lparr>rfd = 3, wfd = 4, fds = {0, 1, 2, 3, 4}, makeflags = example_env, trace = []\<rparr>"


section \<open>Lemmas\<close>

subsection \<open>put\_tokens and the wait of the child\<close>


lemma put_chunk:
  fixes tokens :: u32
  assumes "tokens \<noteq> 0"
  shows "(if tokens > 8 then 8 else unat tokens) = min 8 (unat tokens)"
    and "1 \<le> min 8 (unat tokens)"
  using assms unat_eq_zero [of tokens]
  by (auto simp: word_less_nat_alt not_less word_le_nat_alt)

lemma put_step_unat:
  fixes tokens :: u32
  assumes "k \<le> unat tokens" and "k \<le> 8"
  shows "unat (tokens - word_of_int (int k)) = unat tokens - k"
proof -
  have k: "unat (word_of_int (int k) :: u32) = k"
    using assms(2) unat_small [of "int k"] by simp
  have "(word_of_int (int k) :: u32) \<le> tokens"
    using assms(1) k by (simp add: word_le_nat_alt)
  then show ?thesis
    using k by (simp add: unat_sub)
qed

lemma put_tokens_returns:
  assumes "transient ws" and "unat tokens \<le> capacity ws"
  shows "\<exists>tr. put_tokens ws tokens p = Some (p\<lparr>trace := trace p @ tr\<rparr>)
           \<and> return_writes (wfd p) tr \<and> written (wfd p) tr = unat tokens"
  using assms
proof (induction ws arbitrary: tokens p)
  case Nil
  then have "tokens = 0"
    by (simp add: capacity_def unat_eq_zero)
  then show ?case
    by (auto simp: return_writes_def written_def intro!: exI [of _ "[]"])
next
  case (Cons e es)
  show ?case
  proof (cases "tokens = 0")
    case True
    then show ?thesis
      by (auto simp: return_writes_def written_def intro!: exI [of _ "[]"])
  next
    case False
    define w where "w = min 8 (unat tokens)"
    have w: "(if tokens > 8 then 8 else unat tokens) = w" "1 \<le> w" "w \<le> 8" "w \<le> unat tokens"
      using put_chunk [OF False] by (simp_all add: w_def)
    define q where "q = emit (Write (wfd p) w (sys_write e w)) p"
    have tr: "transient es"
      using Cons.prems(1) by (simp add: transient_def)
    show ?thesis
    proof (cases e)
      case (Accept k)
      define r where "r = min k w"
      have r: "sys_write e w = int r" "r \<le> w"
        by (simp_all add: Accept sys_write_def r_def)
      have left: "unat (tokens - word_of_int (int r)) = unat tokens - r"
        using put_step_unat [of r tokens] r w by simp
      have "unat tokens - r \<le> capacity es"
        using Cons.prems(2) w by (auto simp: capacity_def Accept r_def min_def split: if_splits)
      with left have cap: "unat (tokens - word_of_int (int r)) \<le> capacity es"
        by simp
      from Cons.IH [OF tr cap, of q] obtain tr' where
        tr': "put_tokens es (tokens - word_of_int (int r)) q = Some (q\<lparr>trace := trace q @ tr'\<rparr>)"
          "return_writes (wfd q) tr'" "written (wfd q) tr' = unat (tokens - word_of_int (int r))"
        by blast
      have step: "put_tokens (e # es) tokens p = put_tokens es (tokens - word_of_int (int r)) q"
        using False w r by (simp add: Let_def q_def)
      have "put_tokens (e # es) tokens p
              = Some (p\<lparr>trace := trace p @ Write (wfd p) w (int r) # tr'\<rparr>)"
        unfolding step tr'(1) by (simp add: q_def emit_def r)
      moreover have "return_writes (wfd p) (Write (wfd p) w (int r) # tr')"
        using tr'(2) r w by (simp add: return_writes_def q_def emit_def)
      moreover have "written (wfd p) (Write (wfd p) w (int r) # tr') = unat tokens"
        using tr'(3) left r w by (simp add: written_def q_def emit_def)
      ultimately show ?thesis
        by blast
    next
      case (Refuse err)
      then have err: "err = EAGAIN \<or> err = EINTR"
        using Cons.prems(1) by (simp add: transient_def write_errno_def)
      have cap: "unat tokens \<le> capacity es"
        using Cons.prems(2) by (simp add: capacity_def Refuse)
      from Cons.IH [OF tr cap, of q] obtain tr' where
        tr': "put_tokens es tokens q = Some (q\<lparr>trace := trace q @ tr'\<rparr>)"
          "return_writes (wfd q) tr'" "written (wfd q) tr' = unat tokens"
        by blast
      have step: "put_tokens (e # es) tokens p = put_tokens es tokens q"
        using False w err by (auto simp: Let_def q_def Refuse sys_write_def write_errno_def)
      have "put_tokens (e # es) tokens p
              = Some (p\<lparr>trace := trace p @ Write (wfd p) w (- 1) # tr'\<rparr>)"
        unfolding step tr'(1) by (simp add: q_def emit_def Refuse sys_write_def)
      moreover have "return_writes (wfd p) (Write (wfd p) w (- 1) # tr')"
        using tr'(2) w by (simp add: return_writes_def q_def emit_def)
      moreover have "written (wfd p) (Write (wfd p) w (- 1) # tr') = unat tokens"
        using tr'(3) by (simp add: written_def q_def emit_def)
      ultimately show ?thesis
        by blast
    qed
  qed
qed

lemma put_tokens_best_effort:
  "put_tokens ws tokens p = Some p' \<Longrightarrow>
     \<exists>tr. p' = p\<lparr>trace := trace p @ tr\<rparr> \<and> return_writes (wfd p) tr"
proof (induction ws arbitrary: tokens p)
  case Nil
  then show ?case
    by (auto simp: return_writes_def split: if_splits intro!: exI [of _ "[]"])
next
  case (Cons e es)
  show ?case
  proof (cases "tokens = 0")
    case True
    with Cons.prems show ?thesis
      by (auto simp: return_writes_def intro!: exI [of _ "[]"])
  next
    case False
    define w where "w = min 8 (unat tokens)"
    have w: "(if tokens > 8 then 8 else unat tokens) = w" "1 \<le> w" "w \<le> 8"
      using put_chunk [OF False] by (simp_all add: w_def)
    define q where "q = emit (Write (wfd p) w (sys_write e w)) p"
    have r: "sys_write e w \<le> int w"
      by (simp add: sys_write_def split: wevent.splits)
    have one: "return_writes (wfd p) [Write (wfd p) w (sys_write e w)]"
      using w r by (simp add: return_writes_def)
    have step: "put_tokens (e # es) tokens p =
        (if sys_write e w < 0 then
           (if write_errno e = Some EAGAIN \<or> write_errno e = Some EINTR
            then put_tokens es tokens q else Some q)
         else put_tokens es (tokens - word_of_int (sys_write e w)) q)"
      using False by (simp add: Let_def w(1) q_def)
    have done_now: "p' = q \<Longrightarrow> ?thesis"
    proof -
      assume "p' = q"
      then have "p' = p\<lparr>trace := trace p @ [Write (wfd p) w (sys_write e w)]\<rparr>"
        by (simp add: q_def emit_def)
      with one show ?thesis
        by blast
    qed
    have go_on: "put_tokens es t q = Some p' \<Longrightarrow> ?thesis" for t
    proof -
      assume "put_tokens es t q = Some p'"
      from Cons.IH [OF this] obtain tr where
        tr: "p' = q\<lparr>trace := trace q @ tr\<rparr>" "return_writes (wfd q) tr"
        by blast
      have "p' = p\<lparr>trace := trace p @ (Write (wfd p) w (sys_write e w) # tr)\<rparr>"
        using tr(1) by (simp add: q_def emit_def)
      moreover have "return_writes (wfd p) (Write (wfd p) w (sys_write e w) # tr)"
        using tr(2) one by (simp add: return_writes_def q_def emit_def)
      ultimately show ?thesis
        by blast
    qed
    show ?thesis
    proof (cases "sys_write e w < 0")
      case neg: True
      show ?thesis
      proof (cases "write_errno e = Some EAGAIN \<or> write_errno e = Some EINTR")
        case True
        with neg Cons.prems have "put_tokens es tokens q = Some p'"
          by (simp only: step if_True)
        then show ?thesis by (rule go_on)
      next
        case False
        with neg Cons.prems have "Some q = Some p'"
          by (simp only: step if_True if_False)
        then show ?thesis using done_now by simp
      qed
    next
      case False
      with Cons.prems have "put_tokens es (tokens - word_of_int (sys_write e w)) q = Some p'"
        by (simp only: step if_False)
      then show ?thesis by (rule go_on)
    qed
  qed
qed

lemma wait_read_ends:
  assumes "AuxEOF \<in> set rs"
  shows "\<exists>tr. wait_read rs fd p = Some (p\<lparr>trace := trace p @ tr\<rparr>) \<and> waits fd tr"
  using assms
proof (induction rs arbitrary: p)
  case Nil
  then show ?case by simp
next
  case (Cons a rs)
  define q where "q = emit (Read fd 1 (aux_ret a)) p"
  show ?case
  proof (cases "aux_ret a < 0")
    case True
    then have "AuxEOF \<in> set rs"
      using Cons.prems by (auto simp: aux_ret_def)
    from Cons.IH [OF this, of q] obtain tr where
      tr: "wait_read rs fd q = Some (q\<lparr>trace := trace q @ tr\<rparr>)" "waits fd tr"
      by blast
    have "wait_read (a # rs) fd p
            = Some (p\<lparr>trace := trace p @ Read fd 1 (aux_ret a) # tr\<rparr>)"
      using True tr(1) by (simp add: Let_def q_def emit_def)
    moreover have "waits fd (Read fd 1 (aux_ret a) # tr)"
      using tr(2) by (simp add: waits_def)
    ultimately show ?thesis
      by blast
  next
    case False
    then have "wait_read (a # rs) fd p = Some (p\<lparr>trace := trace p @ [Read fd 1 (aux_ret a)]\<rparr>)"
      by (simp add: Let_def emit_def)
    moreover have "waits fd [Read fd 1 (aux_ret a)]"
      by (simp add: waits_def)
    ultimately show ?thesis
      by blast
  qed
qed

lemma wait_read_frame:
  "wait_read rs fd p = Some p' \<Longrightarrow> \<exists>tr. p' = p\<lparr>trace := trace p @ tr\<rparr> \<and> waits fd tr"
proof (induction rs arbitrary: p)
  case Nil
  then show ?case by simp
next
  case (Cons a rs)
  define q where "q = emit (Read fd 1 (aux_ret a)) p"
  show ?case
  proof (cases "aux_ret a < 0")
    case True
    with Cons.prems have "wait_read rs fd q = Some p'"
      by (simp add: Let_def q_def)
    from Cons.IH [OF this] obtain tr where
      tr: "p' = q\<lparr>trace := trace q @ tr\<rparr>" "waits fd tr"
      by blast
    have "p' = p\<lparr>trace := trace p @ Read fd 1 (aux_ret a) # tr\<rparr>"
      using tr(1) by (simp add: q_def emit_def)
    moreover have "waits fd (Read fd 1 (aux_ret a) # tr)"
      using tr(2) by (simp add: waits_def)
    ultimately show ?thesis
      by blast
  next
    case False
    with Cons.prems have "p' = p\<lparr>trace := trace p @ [Read fd 1 (aux_ret a)]\<rparr>"
      by (simp add: Let_def emit_def)
    moreover have "waits fd [Read fd 1 (aux_ret a)]"
      by (simp add: waits_def)
    ultimately show ?thesis
      by blast
  qed
qed

lemma waits_no_close: "waits fd tr \<Longrightarrow> \<not> closes x tr"
  by (induction tr) (auto simp: waits_def closes_def split: event.splits)

lemma return_writes_no_close: "return_writes fd tr \<Longrightarrow> \<not> closes x tr"
  by (induction tr) (auto simp: return_writes_def closes_def split: event.splits)

subsection \<open>The drain loop\<close>

lemma sys_read_nonblock: "\<exists>r ch'. sys_read True ch count = Some (r, ch')"
  by (simp add: sys_read_def Let_def split: action.split list.split)

lemma drain_unfold_stop:
  "\<not> tokens < 500 \<Longrightarrow> drain nb fd ch tokens p = Some (tokens, ch, p)"
  by (simp add: drain.simps [of nb fd ch tokens p])

lemma drain_unfold_blocked:
  "tokens < 500 \<Longrightarrow> sys_read nb ch 8 = None \<Longrightarrow> drain nb fd ch tokens p = None"
  by (simp add: drain.simps [of nb fd ch tokens p])

lemma drain_unfold_last:
  "tokens < 500 \<Longrightarrow> sys_read nb ch 8 = Some (r, ch') \<Longrightarrow> r \<le> 0 \<Longrightarrow>
   drain nb fd ch tokens p = Some (tokens, ch', emit (Read fd 8 r) p)"
  by (simp add: drain.simps [of nb fd ch tokens p])

lemma drain_unfold_more:
  "tokens < 500 \<Longrightarrow> sys_read nb ch 8 = Some (r, ch') \<Longrightarrow> \<not> r \<le> 0 \<Longrightarrow>
   drain nb fd ch tokens p
     = drain nb fd ch' (tokens + word_of_int r) (emit (Read fd 8 r) p)"
  by (simp add: drain.simps [of nb fd ch tokens p])

lemma drain_nonblock_returns: "\<exists>res. drain True fd ch tokens p = Some res"
proof (induction "True" fd ch tokens p rule: drain.induct)
  case (1 fd ch tokens p)
  show ?case
  proof (cases "tokens < 500")
    case False
    then show ?thesis
      by (simp add: drain_unfold_stop)
  next
    case True
    obtain r ch' where rd: "sys_read True ch 8 = Some (r, ch')"
      using sys_read_nonblock by blast
    show ?thesis
    proof (cases "r \<le> 0")
      case le: True
      then show ?thesis
        using True rd by (simp add: drain_unfold_last)
    next
      case pos: False
      from "1.hyps" [OF True rd refl pos]
      show ?thesis
        using True rd pos by (simp add: drain_unfold_more)
    qed
  qed
qed

lemma drain_bound:
  "unat tokens \<le> 507 \<Longrightarrow> drain nb fd ch tokens p = Some (t, c, p') \<Longrightarrow> unat t \<le> 507"
proof (induction nb fd ch tokens p rule: drain.induct)
  case (1 nb fd ch tokens p)
  show ?case
  proof (cases "tokens < 500")
    case False
    then show ?thesis
      using "1.prems" by (simp add: drain_unfold_stop)
  next
    case True
    show ?thesis
    proof (cases "sys_read nb ch 8")
      case None
      then show ?thesis
        using True "1.prems"(2) by (simp add: drain_unfold_blocked)
    next
      case (Some x)
      obtain r ch' where x: "x = (r, ch')"
        by (cases x)
      have rd: "sys_read nb ch 8 = Some (r, ch')"
        using Some x by simp
      show ?thesis
      proof (cases "r \<le> 0")
        case le: True
        then show ?thesis
          using True rd "1.prems" by (simp add: drain_unfold_last)
      next
        case pos: False
        have r: "0 < r" "r \<le> 8"
          using pos sys_read_le [OF rd] by simp_all
        have b: "unat (tokens + word_of_int r) \<le> 507"
          using drain_step_unat [OF True r] True r by (simp add: word_less_nat_alt)
        have "drain nb fd ch' (tokens + word_of_int r) (emit (Read fd 8 r) p) = Some (t, c, p')"
          using True rd pos "1.prems"(2) by (simp add: drain_unfold_more)
        with "1.IH" [OF True rd refl pos b] show ?thesis
          by simp
      qed
    qed
  qed
qed

lemma drain_frame:
  "drain nb fd ch tokens p = Some (t, c, p') \<Longrightarrow>
   \<exists>tr. p' = p\<lparr>trace := trace p @ tr\<rparr> \<and> reads fd tr"
proof (induction nb fd ch tokens p rule: drain.induct)
  case (1 nb fd ch tokens p)
  show ?case
  proof (cases "tokens < 500")
    case False
    then have "p' = p\<lparr>trace := trace p @ []\<rparr>"
      using "1.prems" by (simp add: drain_unfold_stop)
    moreover have "reads fd []"
      by (simp add: reads_def)
    ultimately show ?thesis
      by blast
  next
    case True
    show ?thesis
    proof (cases "sys_read nb ch 8")
      case None
      then show ?thesis
        using True "1.prems" by (simp add: drain_unfold_blocked)
    next
      case (Some x)
      obtain r ch' where x: "x = (r, ch')"
        by (cases x)
      have rd: "sys_read nb ch 8 = Some (r, ch')"
        using Some x by simp
      define q where "q = emit (Read fd 8 r) p"
      show ?thesis
      proof (cases "r \<le> 0")
        case le: True
        then have "p' = p\<lparr>trace := trace p @ [Read fd 8 r]\<rparr>"
          using True rd "1.prems" by (simp add: drain_unfold_last emit_def)
        moreover have "reads fd [Read fd 8 r]"
          by (simp add: reads_def)
        ultimately show ?thesis
          by blast
      next
        case pos: False
        have "drain nb fd ch' (tokens + word_of_int r) q = Some (t, c, p')"
          using True rd pos "1.prems" by (simp add: drain_unfold_more q_def)
        with "1.IH" [OF True rd refl pos] obtain tr where
          tr: "p' = q\<lparr>trace := trace q @ tr\<rparr>" "reads fd tr"
          unfolding q_def by blast
        have "p' = p\<lparr>trace := trace p @ Read fd 8 r # tr\<rparr>"
          using tr(1) by (simp add: q_def emit_def)
        moreover have "reads fd (Read fd 8 r # tr)"
          using tr(2) by (simp add: reads_def)
        ultimately show ?thesis
          by blast
      qed
    qed
  qed
qed

lemma sys_read_quiet:
  assumes "future ch = []"
  shows "sys_read nb ch 8 =
           (if queued ch = 0 then
              (if nb then Some (- 1, \<lparr>queued = 0, future = []\<rparr>) else None)
            else Some (int (min 8 (queued ch)),
                       \<lparr>queued = queued ch - min 8 (queued ch), future = []\<rparr>))"
  using assms by (simp add: sys_read_def Let_def)

text \<open>
  On a pipe that nothing else touches the loop takes what is queued, eight bytes at a
  time, up to the first multiple of eight that is not below 500.
\<close>

lemma drain_quiet:
  assumes "future ch = []" and "unat tokens \<le> 504"
    and "unat tokens mod 8 = 0 \<or> queued ch = 0"
  shows "\<exists>t p'. drain True fd ch tokens p =
             Some (t, \<lparr>queued = queued ch - (min (unat tokens + queued ch) 504 - unat tokens),
                       future = []\<rparr>, p')
           \<and> unat t = min (unat tokens + queued ch) 504"
  using assms
proof (induction "True" fd ch tokens p rule: drain.induct)
  case (1 fd ch tokens p)
  have ch: "ch = \<lparr>queued = queued ch, future = []\<rparr>"
    using "1.prems"(1) by (cases ch) simp
  show ?case
  proof (cases "tokens < 500")
    case False
    then have n: "500 \<le> unat tokens"
      by (simp add: word_less_nat_alt)
    have res: "drain True fd ch tokens p = Some (tokens, ch, p)"
      using False by (simp add: drain_unfold_stop)
    have "min (unat tokens + queued ch) 504 = unat tokens"
      using n "1.prems"(2,3) by presburger
    then show ?thesis
      using ch by (simp add: res)
  next
    case True
    then have n: "unat tokens < 500"
      by (simp add: word_less_nat_alt)
    show ?thesis
    proof (cases "queued ch = 0")
      case empty: True
      have "sys_read True ch 8 = Some (- 1, \<lparr>queued = 0, future = []\<rparr>)"
        using empty sys_read_quiet [OF "1.prems"(1)] by simp
      then have "drain True fd ch tokens p
                   = Some (tokens, \<lparr>queued = 0, future = []\<rparr>, emit (Read fd 8 (- 1)) p)"
        using True by (simp add: drain_unfold_last)
      then show ?thesis
        using empty n by simp
    next
      case full: False
      define r where "r = min 8 (queued ch)"
      define ch' where "ch' = \<lparr>queued = queued ch - r, future = []\<rparr>"
      have rd: "sys_read True ch 8 = Some (int r, ch')"
        using full sys_read_quiet [OF "1.prems"(1)] by (simp add: r_def ch'_def)
      have r: "0 < int r" "int r \<le> 8" "\<not> int r \<le> 0"
        using full by (simp_all add: r_def)
      have m8: "unat tokens mod 8 = 0"
        using full "1.prems"(3) by simp
      have next_n: "unat (tokens + word_of_int (int r)) = unat tokens + r"
        using drain_step_unat [OF True r(1,2)] by simp
      have a: "future ch' = []"
        by (simp add: ch'_def)
      have r8: "r \<le> 8"
        by (simp add: r_def)
      have n496: "unat tokens \<le> 496"
        using n m8 by presburger
      have b: "unat (tokens + word_of_int (int r)) \<le> 504"
        using next_n n496 r8 by simp
      have c: "unat (tokens + word_of_int (int r)) mod 8 = 0 \<or> queued ch' = 0"
        using next_n m8 by (simp add: ch'_def r_def min_def)
      have step: "drain True fd ch tokens p
                    = drain True fd ch' (tokens + word_of_int (int r)) (emit (Read fd 8 (int r)) p)"
        using True rd r(3) by (simp add: drain_unfold_more)
      have q: "unat tokens + r + queued ch' = unat tokens + queued ch"
        by (simp add: ch'_def r_def)
      have q2: "queued ch' - (min (unat tokens + queued ch) 504 - (unat tokens + r))
                  = queued ch - (min (unat tokens + queued ch) 504 - unat tokens)"
        using b next_n by (simp add: ch'_def r_def min_def)
      from "1.hyps" [OF True rd refl r(3) a b c]
      show ?thesis
        unfolding step next_n q q2 .
    qed
  qed
qed

text \<open>
  A descriptor in blocking mode would make the loop sleep on a pipe that holds fewer than
  500 bytes: the loop reads until a read finds the pipe empty.
\<close>

lemma drain_blocks:
  assumes "future ch = []" and "unat tokens + queued ch < 500"
  shows "drain False fd ch tokens p = None"
  using assms
proof (induction "False" fd ch tokens p rule: drain.induct)
  case (1 fd ch tokens p)
  have True: "tokens < 500"
    using "1.prems"(2) by (simp add: word_less_nat_alt)
  show ?case
  proof (cases "queued ch = 0")
    case empty: True
    have "sys_read False ch 8 = None"
      using empty sys_read_quiet [OF "1.prems"(1)] by simp
    then show ?thesis
      using True by (simp add: drain_unfold_blocked)
  next
    case full: False
    define r where "r = min 8 (queued ch)"
    define ch' where "ch' = \<lparr>queued = queued ch - r, future = []\<rparr>"
    have rd: "sys_read False ch 8 = Some (int r, ch')"
      using full sys_read_quiet [OF "1.prems"(1)] by (simp add: r_def ch'_def)
    have r: "0 < int r" "int r \<le> 8" "\<not> int r \<le> 0"
      using full by (simp_all add: r_def)
    have next_n: "unat (tokens + word_of_int (int r)) = unat tokens + r"
      using drain_step_unat [OF True r(1,2)] by simp
    have a: "future ch' = []"
      by (simp add: ch'_def)
    have b: "unat (tokens + word_of_int (int r)) + queued ch' < 500"
      using next_n "1.prems"(2) by (simp add: ch'_def r_def)
    have step: "drain False fd ch tokens p
                  = drain False fd ch' (tokens + word_of_int (int r)) (emit (Read fd 8 (int r)) p)"
      using True rd r(3) by (simp add: drain_unfold_more)
    from "1.hyps" [OF True rd refl r(3) a b]
    show ?thesis
      unfolding step .
  qed
qed

text \<open>
  While eight bytes are queued and the count is below 500, each read takes eight bytes,
  in either mode of the descriptor.
\<close>

lemma sys_read_full:
  assumes "8 \<le> t" and "set (take 1 fut) \<subseteq> {Calm}"
  shows "sys_read nb \<lparr>queued = t, future = fut\<rparr> 8
           = Some (8, \<lparr>queued = t - 8, future = tl fut\<rparr>)"
  using assms by (cases fut) (simp_all add: sys_read_def Let_def)

lemma drain_full_reads:
  assumes "8 * k \<le> t" and "unat tokens + 8 * k < 508" and "set (take k fut) \<subseteq> {Calm}"
  shows "drain nb fd \<lparr>queued = t, future = fut\<rparr> tokens p
           = drain nb fd \<lparr>queued = t - 8 * k, future = drop k fut\<rparr> (tokens + of_nat (8 * k))
               (p\<lparr>trace := trace p @ replicate k (Read fd 8 8)\<rparr>)"
  using assms
proof (induction k arbitrary: t tokens p fut)
  case 0
  then show ?case
    by simp
next
  case (Suc k)
  have lt: "tokens < 500"
    using Suc.prems(2) by (simp add: word_less_nat_alt)
  have t8: "8 \<le> t"
    using Suc.prems(1) by simp
  have f1: "set (take 1 fut) \<subseteq> {Calm}"
    using Suc.prems(3) by (cases fut) simp_all
  have n: "unat (tokens + word_of_int 8) = unat tokens + 8"
    using drain_step_unat [OF lt, of 8] by simp
  have step: "drain nb fd \<lparr>queued = t, future = fut\<rparr> tokens p
                = drain nb fd \<lparr>queued = t - 8, future = tl fut\<rparr>
                    (tokens + word_of_int 8) (emit (Read fd 8 8) p)"
    using drain_unfold_more [OF lt sys_read_full [OF t8 f1, of nb], of fd p]
    by simp
  have a: "8 * k \<le> t - 8"
    using Suc.prems(1) by simp
  have b: "unat (tokens + word_of_int 8) + 8 * k < 508"
    using n Suc.prems(2) by simp
  have c: "set (take k (tl fut)) \<subseteq> {Calm}"
    using Suc.prems(3) by (cases fut) simp_all
  have w: "tokens + word_of_int 8 + of_nat (8 * k) = tokens + of_nat (8 * Suc k)"
    by simp
  have q: "t - 8 - 8 * k = t - 8 * Suc k"
    by simp
  have d: "drop k (tl fut) = drop (Suc k) fut"
    by (simp add: drop_Suc)
  show ?case
    unfolding step Suc.IH [OF a b c] w q d by (simp add: emit_def)
qed

lemma drain_stops_on:
  assumes "k < 63" and "a = Eof \<and> r = 0 \<or> a = Fault e \<and> r = - 1"
  shows "drain nb fd \<lparr>queued = 8 * k + u, future = replicate k Calm @ a # rest\<rparr> 0 p =
           Some (of_nat (8 * k), \<lparr>queued = u, future = rest\<rparr>,
                 p\<lparr>trace := trace p @ replicate k (Read fd 8 8) @ [Read fd 8 r]\<rparr>)"
proof -
  have "unat (of_nat (8 * k) :: u32) = 8 * k mod 2 ^ LENGTH(32)"
    by (rule unat_of_nat)
  then have "unat (of_nat (8 * k) :: u32) = 8 * k"
    using assms(1) by simp
  then have lt: "(of_nat (8 * k) :: u32) < 500"
    using assms(1) by (simp add: word_less_nat_alt)
  have rd: "sys_read nb \<lparr>queued = u, future = a # rest\<rparr> 8
              = Some (r, \<lparr>queued = u, future = rest\<rparr>)"
    using assms(2) by (auto simp: sys_read_def Let_def)
  have r: "r \<le> 0"
    using assms(2) by auto
  have "drain nb fd \<lparr>queued = 8 * k + u, future = replicate k Calm @ a # rest\<rparr> 0 p
          = drain nb fd \<lparr>queued = 8 * k + u - 8 * k, future = drop k (replicate k Calm @ a # rest)\<rparr>
              (0 + of_nat (8 * k)) (p\<lparr>trace := trace p @ replicate k (Read fd 8 8)\<rparr>)"
    using assms(1) by (intro drain_full_reads) (simp_all add: set_replicate_conv_if)
  also have "\<dots> = drain nb fd \<lparr>queued = u, future = a # rest\<rparr> (of_nat (8 * k))
                      (p\<lparr>trace := trace p @ replicate k (Read fd 8 8)\<rparr>)"
    by simp
  also have "\<dots> = Some (of_nat (8 * k), \<lparr>queued = u, future = rest\<rparr>,
                 emit (Read fd 8 r) (p\<lparr>trace := trace p @ replicate k (Read fd 8 8)\<rparr>))"
    by (rule drain_unfold_last [OF lt rd r])
  finally show ?thesis
    by (simp add: emit_def)
qed

lemma drain_stops_at_ceiling:
  "drain nb fd \<lparr>queued = 504 + u, future = replicate 63 Calm @ rest\<rparr> 0 p =
     Some (504, \<lparr>queued = u, future = rest\<rparr>,
           p\<lparr>trace := trace p @ replicate 63 (Read fd 8 8)\<rparr>)"
proof -
  have "drain nb fd \<lparr>queued = 504 + u, future = replicate 63 Calm @ rest\<rparr> 0 p
          = drain nb fd \<lparr>queued = 504 + u - 8 * 63,
                          future = drop 63 (replicate 63 Calm @ rest)\<rparr>
              (0 + of_nat (8 * 63)) (p\<lparr>trace := trace p @ replicate 63 (Read fd 8 8)\<rparr>)"
    by (intro drain_full_reads) simp_all
  also have "\<dots> = drain nb fd \<lparr>queued = u, future = rest\<rparr> 504
                      (p\<lparr>trace := trace p @ replicate 63 (Read fd 8 8)\<rparr>)"
    by simp
  also have "\<dots> = Some (504, \<lparr>queued = u, future = rest\<rparr>,
                          p\<lparr>trace := trace p @ replicate 63 (Read fd 8 8)\<rparr>)"
    by (rule drain_unfold_stop) simp
  finally show ?thesis .
qed

subsection \<open>Finding a text in a string\<close>

lemma starts_with_prefix: "starts_with s n = prefix n s"
proof
  assume "starts_with s n"
  then have "s = n @ drop (length n) s"
    by (metis append_take_drop_id starts_with_def)
  then show "prefix n s"
    by (metis prefixI)
next
  assume "prefix n s"
  then show "starts_with s n"
    by (auto simp: prefix_def starts_with_def)
qed

lemma strstr_None_iff: "strstr s n = None \<longleftrightarrow> \<not> sublist n s"
  by (induction s) (auto simp: starts_with_prefix sublist_Cons_right)

lemma prefix_short:
  assumes "prefix xs (ys @ zs)" and "length xs \<le> length ys"
  shows "prefix xs ys"
  using assms by (auto simp: prefix_append)

lemma strstr_first:
  assumes "n \<noteq> []" and "\<not> sublist n (pre @ butlast n)"
  shows "strstr (pre @ n @ post) n = Some (length pre)"
  using assms(2)
proof (induction pre)
  case Nil
  obtain c cs where "n @ post = c # cs"
    using assms(1) by (cases n) auto
  moreover from this have "take (length n) (c # cs) = n"
    by (metis append_eq_conv_conj)
  ultimately show ?case
    using strstr.simps(2) [of c cs n] by (simp add: starts_with_def)
next
  case (Cons c pre)
  have no_pre: "\<not> prefix n (c # pre @ butlast n)" and rest: "\<not> sublist n (pre @ butlast n)"
    using Cons.prems by (simp_all add: sublist_Cons_right)
  have "\<not> prefix n (c # pre @ n @ post)"
  proof
    assume "prefix n (c # pre @ n @ post)"
    moreover have "c # pre @ n @ post = (c # pre @ butlast n) @ (last n # post)"
      using assms(1) by simp
    moreover have "length n \<le> length (c # pre @ butlast n)"
      by simp
    ultimately have "prefix n (c # pre @ butlast n)"
      using prefix_short by metis
    with no_pre show False ..
  qed
  then show ?case
    using Cons.IH [OF rest] by (simp add: starts_with_prefix)
qed

lemma strstr_Some:
  "strstr s n = Some j \<Longrightarrow> starts_with (drop j s) n \<and> j + length n \<le> length s"
proof (induction s arbitrary: j)
  case Nil
  then show ?case
    by (auto simp: starts_with_def split: if_splits)
next
  case (Cons c cs)
  show ?case
  proof (cases "starts_with (c # cs) n")
    case True
    then have "length n \<le> length (c # cs)"
      by (metis starts_with_prefix prefix_length_le)
    with True Cons.prems show ?thesis
      by simp
  next
    case False
    with Cons.prems obtain j' where "strstr cs n = Some j'" "j = Suc j'"
      by auto
    with Cons.IH [of j'] show ?thesis
      by simp
  qed
qed

lemma find_hashes_None: "list_all (\<lambda>a. \<not> sublist ''###'' a) as \<Longrightarrow> find_hashes as = None"
  by (induction as) (auto simp: strstr_None_iff [symmetric])

lemma find_hashes_first:
  assumes "i < length as" and "strstr (as ! i) ''###'' = Some j"
    and "list_all (\<lambda>a. \<not> sublist ''###'' a) (take i as)"
  shows "find_hashes as = Some (i, j)"
  using assms
proof (induction as arbitrary: i)
  case Nil
  then show ?case by simp
next
  case (Cons a as)
  show ?case
  proof (cases i)
    case 0
    with Cons.prems show ?thesis by simp
  next
    case (Suc i')
    with Cons.prems have "strstr a ''###'' = None"
      by (simp add: strstr_None_iff)
    moreover have "find_hashes as = Some (i', j)"
      using Cons.IH [of i'] Cons.prems Suc by simp
    ultimately show ?thesis
      by (simp add: Suc)
  qed
qed

lemma find_hashes_Some:
  "find_hashes as = Some (i, j) \<Longrightarrow> i < length as \<and> strstr (as ! i) ''###'' = Some j"
proof (induction as arbitrary: i)
  case Nil
  then show ?case by simp
next
  case (Cons a as)
  show ?case
  proof (cases "strstr a ''###''")
    case (Some j')
    with Cons.prems show ?thesis by simp
  next
    case None
    with Cons.prems obtain i' where "find_hashes as = Some (i', j)" "i = Suc i'"
      by auto
    with Cons.IH [of i'] show ?thesis
      by simp
  qed
qed

lemma marker_found:
  assumes "marker_at argv k pre post"
  shows "find_hashes (drop 2 argv) = Some (k - 2, length pre)"
proof -
  have k: "2 \<le> k" "k < length argv" and arg: "argv ! k = pre @ ''###'' @ post"
    and first: "\<not> sublist ''###'' (pre @ butlast ''###'')"
    and before: "list_all (\<lambda>a. \<not> sublist ''###'' a) (take (k - 2) (drop 2 argv))"
    using assms by (simp_all add: marker_at_def first_at_def)
  have "strstr (pre @ ''###'' @ post) ''###'' = Some (length pre)"
    using first by (intro strstr_first) simp_all
  moreover have "drop 2 argv ! (k - 2) = argv ! k"
  proof -
    have "2 + (k - 2) = k"
      using k by simp
    then show ?thesis
      using k by (simp only: nth_drop)
  qed
  ultimately have "strstr (drop 2 argv ! (k - 2)) ''###'' = Some (length pre)"
    using arg by simp
  moreover have "k - 2 < length (drop 2 argv)"
    using k by simp
  ultimately show ?thesis
    using before find_hashes_first [of "k - 2" "drop 2 argv" "length pre"] by blast
qed

subsection \<open>The number written over the marker\<close>

lemma decimal_length:
  assumes "n < 1000"
  shows "1 \<le> length (decimal n) \<and> length (decimal n) \<le> 3"
proof -
  have d1: "length (decimal m) = 1" if "m < 10" for m
    using that by (simp add: decimal.simps [of m])
  have d2: "length (decimal m) = 2" if "10 \<le> m" "m < 100" for m
    using that d1 [of "m div 10"] by (simp add: decimal.simps [of m])
  have d3: "length (decimal m) = 3" if "100 \<le> m" "m < 1000" for m
    using that d2 [of "m div 10"] by (simp add: decimal.simps [of m])
  consider "n < 10" | "10 \<le> n" "n < 100" | "100 \<le> n"
    by linarith
  then show ?thesis
    using d1 [of n] d2 [of n] d3 [of n] assms by cases simp_all
qed

lemma c_str_append: "NUL \<notin> set s \<Longrightarrow> c_str (s @ NUL # rest) = s"
  by (induction s) (auto simp: c_str_def)

lemma decimal_digits: "set (decimal n) \<subseteq> set ''0123456789''"
proof (induction n rule: decimal.induct)
  case (1 n)
  have d: "''0123456789'' ! k \<in> set ''0123456789''" if "k < 10" for k
    using that nth_mem [of k "''0123456789''"] by simp
  show ?case
  proof (cases "n < 10")
    case True
    then show ?thesis
      using d [of n] by (simp add: decimal.simps [of n])
  next
    case False
    have "n mod 10 < 10"
      by simp
    with False "1.IH" d [of "n mod 10"] show ?thesis
      by (simp add: decimal.simps [of n])
  qed
qed

lemma decimal_no_NUL: "NUL \<notin> set (decimal n)"
  using decimal_digits [of n] by (auto simp: NUL_def)

lemma drop_short: "n \<le> length xs \<Longrightarrow> drop n (xs @ ys) = drop n xs @ ys"
  by simp

lemma rewrite_marker:
  assumes "unat tokens \<le> 998" and "NUL \<notin> set pre" and "NUL \<notin> set post"
  shows "rewrite (pre @ ''###'' @ post) (length pre) tokens
           = Some (pre @ decimal (unat tokens + 1) @ post)"
proof -
  define d where "d = decimal (Suc (unat tokens))"
  have n: "decimal (unat (tokens + 1)) = d"
    using assms(1) by (simp add: unat_add_lem [THEN iffD1] d_def)
  have len: "1 \<le> length d" "length d \<le> 3"
    using decimal_length [of "Suc (unat tokens)"] assms(1) by (simp_all add: d_def)
  have dn: "NUL \<notin> set d"
    by (simp add: d_def decimal_no_NUL)
  define mem where "mem = (pre @ ''###'' @ post) @ [NUL]"
  have hashes: "NUL \<notin> set (''###'' @ post)"
    using assms(3) by (simp add: NUL_def)
  have "drop (length pre) mem = (''###'' @ post) @ NUL # []"
    by (simp add: mem_def)
  then have sl: "strlen (drop (length pre) mem) = length post + 3"
    unfolding strlen_def using c_str_append [OF hashes, of "[]"] by simp
  have cp: "memcpy mem (length pre) (take 3 d @ [NUL]) (length d)
              = pre @ d @ drop (length d) ''###'' @ post @ [NUL]"
    using len drop_short [of "length d" "''###''" "post @ [NUL]"]
    by (simp add: memcpy_def mem_def)
  have mv: "memmove (pre @ d @ drop (length d) ''###'' @ post @ [NUL])
              (length pre + length d) (length pre + 3) (length post + 3 + 1 - 3)
            = (pre @ d @ post) @ NUL # drop (length post + 1) (drop (length d) ''###'' @ post @ [NUL])"
    using len by (simp add: memmove_def)
  have "NUL \<notin> set (pre @ d @ post)"
    using assms(2,3) dn by simp
  from c_str_append [OF this]
  have cs: "c_str ((pre @ d @ post) @ NUL # drop (length post + 1) (drop (length d) ''###'' @ post @ [NUL]))
          = pre @ d @ post" .
  have "rewrite (pre @ ''###'' @ post) (length pre) tokens = Some (pre @ d @ post)"
    unfolding rewrite_def n Let_def mem_def [symmetric] sl cp mv cs using len by simp
  then show ?thesis
    by (simp add: d_def)
qed

lemma rewrite_some:
  assumes "unat tokens \<le> 998" and "starts_with (drop j a) ''###''"
  shows "rewrite a j tokens \<noteq> None"
proof -
  have len: "length (decimal (unat (tokens + 1))) \<le> 3"
    using decimal_length [of "Suc (unat tokens)"] assms(1)
    by (simp add: unat_add_lem [THEN iffD1])
  obtain rest where r: "drop j a = ''###'' @ rest"
    using assms(2) by (metis append_take_drop_id starts_with_def)
  then have "j \<le> length a"
    by (metis drop_all append_is_Nil_conv list.distinct(1) nat_le_linear)
  then have "drop j (a @ [NUL]) = ''###'' @ rest @ [NUL]"
    using r by simp
  then have "3 \<le> strlen (drop j (a @ [NUL]))"
    by (simp add: strlen_def c_str_def NUL_def)
  with len show ?thesis
    by (simp add: rewrite_def Let_def)
qed

subsection \<open>parse\_env and get\_tokens\<close>

lemma strchr_mem: "c \<in> set s \<Longrightarrow> strchr s c \<noteq> None"
  by (induction s) auto

lemma strstr_strchr:
  assumes "strstr s n = Some i" and "c \<in> set n"
  shows "strchr (drop i s) c \<noteq> None"
proof -
  have "prefix n (drop i s)"
    using strstr_Some [OF assms(1)] by (simp add: starts_with_prefix)
  then have "set n \<subseteq> set (drop i s)"
    by (auto simp: prefix_def)
  with assms(2) show ?thesis
    by (intro strchr_mem) auto
qed

lemma parse_env_no_abort: "fst (parse_env p) \<noteq> Stop out"
proof (cases "makeflags p")
  case None
  then show ?thesis by (simp add: parse_env_def)
next
  case (Some env)
  show ?thesis
  proof (cases "strstr env ''--jobserver-auth=''")
    case auth: (Some i)
    from strstr_strchr [OF this, of "CHR ''=''"] obtain k where
      "strchr (drop i env) (CHR ''='') = Some k"
      by auto
    then show ?thesis
      using Some auth by (simp add: parse_env_def split: prod.splits)
  next
    case None
    show ?thesis
    proof (cases "strstr env ''--jobserver-fds=''")
      case fds: (Some i)
      from strstr_strchr [OF this, of "CHR ''=''"] obtain k where
        "strchr (drop i env) (CHR ''='') = Some k"
        by auto
      then show ?thesis
        using Some None fds by (simp add: parse_env_def split: prod.splits)
    next
      case no: None
      then show ?thesis
        using Some None by (simp add: parse_env_def)
    qed
  qed
qed

lemma sscanf_pair_2: "fst (sscanf_pair (CHR ''='' # s) v) = 2 \<longleftrightarrow> is_pair s"
  by (auto simp: sscanf_pair_def is_pair_def split: option.splits list.splits prod.splits)

lemma parse_env_absent:
  assumes "makeflags p = None
           \<or> (\<exists>e. makeflags p = Some e \<and> \<not> sublist ''--jobserver-auth='' e
                    \<and> \<not> sublist ''--jobserver-fds='' e)"
  shows "parse_env p = (Return (- 1), p)"
  using assms by (auto simp: parse_env_def strstr_None_iff [symmetric])

lemma parse_env_located:
  assumes "makeflags p = Some e"
    and "first_at ''--jobserver-auth='' e pre rest
         \<or> (\<not> sublist ''--jobserver-auth='' e \<and> first_at ''--jobserver-fds='' e pre rest)"
  shows "parse_env p =
           (case sscanf_pair (CHR ''='' # rest) (rfd p, wfd p) of
              (n, (a, b)) \<Rightarrow>
                (if n = 2 then Return 0 else Return (- 1), p\<lparr>rfd := a, wfd := b\<rparr>))"
  using assms(2)
proof
  assume a: "first_at ''--jobserver-auth='' e pre rest"
  then have e: "e = pre @ ''--jobserver-auth='' @ rest"
    by (simp add: first_at_def)
  have "strstr (pre @ ''--jobserver-auth='' @ rest) ''--jobserver-auth='' = Some (length pre)"
    using a by (intro strstr_first) (simp_all add: first_at_def)
  then have found: "strstr e ''--jobserver-auth='' = Some (length pre)"
    by (simp add: e)
  have eq: "strchr (drop (length pre) e) (CHR ''='') = Some 16"
    by (simp add: e)
  have "drop (length pre + 16) e = CHR ''='' # rest"
    by (simp add: e)
  then show ?thesis
    using assms(1) found eq by (simp add: parse_env_def split: prod.splits)
next
  assume a: "\<not> sublist ''--jobserver-auth='' e \<and> first_at ''--jobserver-fds='' e pre rest"
  then have e: "e = pre @ ''--jobserver-fds='' @ rest"
    by (simp add: first_at_def)
  have none: "strstr e ''--jobserver-auth='' = None"
    using a by (simp add: strstr_None_iff)
  have "strstr (pre @ ''--jobserver-fds='' @ rest) ''--jobserver-fds='' = Some (length pre)"
    using a by (intro strstr_first) (simp_all add: first_at_def)
  then have found: "strstr e ''--jobserver-fds='' = Some (length pre)"
    by (simp add: e)
  have eq: "strchr (drop (length pre) e) (CHR ''='') = Some 15"
    by (simp add: e)
  have "drop (length pre + 15) e = CHR ''='' # rest"
    by (simp add: e)
  then show ?thesis
    using assms(1) none found eq by (simp add: parse_env_def split: prod.splits)
qed

lemma get_tokens_degraded:
  "parse_env p = (Return (- 1), p') \<Longrightarrow> get_tokens w p = Some (Return 0, p')"
  by (simp add: get_tokens_def)

lemma create_child_result:
  assumes "create_child w tokens p = Some (r, p')"
  shows "r = Return 0 \<or> r = Return (sint tokens) \<or> r = Stop (Exit EX_OK)"
  using assms
  by (auto simp: create_child_def Let_def split: option.splits prod.splits if_splits)

lemma open_flags_nonblock: "(O_RDONLY OR O_NONBLOCK OR O_CLOEXEC) AND O_NONBLOCK \<noteq> 0"
  by (simp add: O_RDONLY_def O_NONBLOCK_def O_CLOEXEC_def)

text \<open>Whatever the mode of \<^verbatim>\<open>rfd\<close>, the loop reads through a non-blocking descriptor.\<close>

lemma get_tokens_nonblock:
  assumes "parse_env p = (Return e, p1)" and "0 \<le> e" and "0 \<le> fcntl_ret w"
  shows "get_tokens w p =
           (let p2 = emit (Fcntl (rfd p1) (fcntl_ret w)) p1 in
            if fcntl_ret w AND O_NONBLOCK = 0 then
              let p3 = sys_open (''/proc/self/fd/'' @ decimal_int (rfd p2)) (open_ret w) p2
              in if open_ret w < 0 then Some (Return 0, p3)
                 else drain_and_fork w True (open_ret w) p3
            else drain_and_fork w True (rfd p2) p2)"
  using assms open_flags_nonblock by (simp add: get_tokens_def Let_def)

lemma drain_and_fork_result:
  assumes "drain_and_fork w nb fd p = Some (r, p')"
  shows "(\<exists>t. r = Return t \<and> unat t \<le> 507) \<or> r = Stop (Exit EX_OK)"
proof -
  obtain tokens ch p1 where d: "drain nb fd (jobserver w) 0 p = Some (tokens, ch, p1)"
    using assms by (auto simp: drain_and_fork_def split: option.splits)
  have b: "unat tokens \<le> 507"
    using drain_bound [OF _ d] by simp
  define p2 where "p2 = (if fd \<noteq> rfd p1 then sys_close fd p1 else p1)"
  show ?thesis
  proof (cases "tokens = 0")
    case True
    with assms d have "r = Return 0"
      by (auto simp: drain_and_fork_def)
    then show ?thesis
      by simp
  next
    case False
    with assms d obtain r0 where
      c: "create_child w tokens p2 = Some (r0, p')"
      and r: "r = (case r0 of Return x \<Rightarrow> Return (word_of_int x) | Stop out \<Rightarrow> Stop out)"
      by (auto simp: drain_and_fork_def p2_def Let_def split: option.splits flow.splits)
    from create_child_result [OF c] show ?thesis
      using r b by auto
  qed
qed

lemma get_tokens_result:
  assumes "get_tokens w p = Some (r, p')"
  shows "(\<exists>t. r = Return t \<and> unat t \<le> 507) \<or> r = Stop (Exit EX_OK)"
proof -
  obtain e p1 where pe: "parse_env p = (Return e, p1)"
    using parse_env_no_abort [of p] by (cases "parse_env p"; cases "fst (parse_env p)") auto
  have zero: "r = Return 0 \<Longrightarrow> ?thesis"
    by simp
  from assms pe consider "r = Return 0"
    | nb fd p3 where "drain_and_fork w nb fd p3 = Some (r, p')"
    by (auto simp: get_tokens_def Let_def split: if_splits)
  then show ?thesis
    using zero drain_and_fork_result by cases blast+
qed

lemma create_child_parent:
  assumes "pipe_ret w = Some (pipefd0, pipefd1)" and "0 < fork_ret w"
  shows "create_child w tokens p =
           Some (Return (sint tokens),
                 sys_close pipefd0 (emit (Fork (fork_ret w)) (sys_pipe (Some (pipefd0, pipefd1)) p)))"
  using assms by (simp add: create_child_def)

lemma drain_and_fork_quiet:
  assumes "jobserver w = \<lparr>queued = t, future = []\<rparr>"
    and "pipe_ret w = Some (pipefd0, pipefd1)" and "0 < fork_ret w"
  shows "\<exists>T p'. drain_and_fork w True fd p = Some (Return T, p') \<and> unat T = min t 504"
proof -
  from drain_quiet [of "jobserver w" 0 fd p] assms(1) obtain T p1 where
    d: "drain True fd (jobserver w) 0 p
          = Some (T, \<lparr>queued = t - min t 504, future = []\<rparr>, p1)"
    and T: "unat T = min t 504"
    by auto
  show ?thesis
    using d T create_child_parent [OF assms(2,3)]
    by (cases "T = 0") (simp_all add: drain_and_fork_def Let_def)
qed

lemma get_tokens_quiet:
  assumes "parse_env p = (Return 0, p1)"
    and "0 \<le> fcntl_ret w" and "fcntl_ret w AND O_NONBLOCK = 0 \<longrightarrow> 0 \<le> open_ret w"
    and "jobserver w = \<lparr>queued = t, future = []\<rparr>"
    and "pipe_ret w = Some (pipefd0, pipefd1)" and "0 < fork_ret w"
  shows "\<exists>T p'. get_tokens w p = Some (Return T, p') \<and> unat T = min t 504"
proof (cases "fcntl_ret w AND O_NONBLOCK = 0")
  case True
  then have "\<not> open_ret w < 0"
    using assms(3) by simp
  then have "\<exists>fd p3. get_tokens w p = drain_and_fork w True fd p3"
    using True by (auto simp: get_tokens_nonblock [OF assms(1) _ assms(2)] Let_def)
  then show ?thesis
    using drain_and_fork_quiet [OF assms(4,5,6)] by auto
next
  case False
  then have "\<exists>fd p3. get_tokens w p = drain_and_fork w True fd p3"
    by (auto simp: get_tokens_nonblock [OF assms(1) _ assms(2)] Let_def)
  then show ?thesis
    using drain_and_fork_quiet [OF assms(4,5,6)] by auto
qed

subsection \<open>The example, evaluated\<close>

lemma ex_parse: "parse_env (start example_env {0, 1, 2, 3, 4}) = (Return 0, example_proc)"
  by (simp add: parse_env_def start_def example_env_def example_proc_def starts_with_def
      sscanf_pair_def scan_d_def isspace_def isdigit_def digits_val_def digit_val_def Let_def)

lemma ex_drain:
  "drain True 5 \<lparr>queued = 13, future = []\<rparr> 0 p =
     Some (13, \<lparr>queued = 0, future = []\<rparr>,
           p\<lparr>trace := trace p @ [Read 5 8 8, Read 5 8 5, Read 5 8 (- 1)]\<rparr>)"
  by (simp add: drain.simps sys_read_def emit_def Let_def)

lemma ex_get:
  "get_tokens example_world (start example_env {0, 1, 2, 3, 4}) =
     Some (Return 13,
           example_proc\<lparr>fds := {0, 1, 2, 3, 4, 6},
             trace := [Fcntl 3 0, Open ''/proc/self/fd/3'' 5, Read 5 8 8, Read 5 8 5,
                       Read 5 8 (- 1), Close 5, Pipe (Some (5, 6)), Fork 4711, Close 5]\<rparr>)"
  by (simp add: get_tokens_def ex_parse)
     (auto simp: example_world_def example_proc_def O_RDONLY_def O_NONBLOCK_def O_CLOEXEC_def emit_def sys_open_def
        decimal_int_def decimal.simps drain_and_fork_def ex_drain sys_close_def
        create_child_def sys_pipe_def)

lemma ex_marker: "marker_at example_argv 2 ''-j'' []"
  by (simp add: marker_at_def first_at_def example_argv_def sublist_code)

lemma ex_c_strings: "c_strings example_argv"
  by (simp add: c_strings_def example_argv_def NUL_def)

lemma ex_main:
  "jobhog example_world example_env {0, 1, 2, 3, 4} example_argv =
     Some (Exec ''mybuild'' [''mybuild'', ''-j14'', ''--flag''],
           [''jobhog'', ''mybuild'', ''-j14'', ''--flag''],
           \<lparr>rfd = 3, wfd = 4, fds = {0, 1, 2, 6}, makeflags = None,
             trace = [Fcntl 3 0, Open ''/proc/self/fd/3'' 5, Read 5 8 8, Read 5 8 5,
                      Read 5 8 (- 1), Close 5, Pipe (Some (5, 6)), Fork 4711, Close 5,
                      Unsetenv ''MAKEFLAGS'', Close 3, Close 4,
                      Execvp ''mybuild'' [''mybuild'', ''-j14'', ''--flag'']]\<rparr>)"
  apply (simp add: jobhog_def main_def example_argv_def starts_with_def)
  apply (simp add: ex_get)
  apply (auto simp: starts_with_def rewrite_def decimal.simps memcpy_def
        memmove_def c_str_def strlen_def NUL_def launch_def sys_unsetenv_def sys_close_def emit_def example_proc_def
        example_world_def Let_def)
  done

subsection \<open>main\<close>

lemma launch_outcome:
  "fst (launch w argv p) =
     (case execvp_errno w of None \<Rightarrow> Exec (argv ! 1) (drop 1 argv) | Some e \<Rightarrow> Exit EX_OSERR)"
  "fst (snd (launch w argv p)) = argv"
  by (simp_all add: launch_def Let_def split: option.splits)

lemma found_marker:
  assumes "find_hashes (drop 2 argv) = Some (i, j)"
  shows "i + 2 < length argv"
    and "starts_with (drop j (argv ! (i + 2))) ''###''"
    and "argv ! (i + 2) = take j (argv ! (i + 2)) @ ''###'' @ drop (j + 3) (argv ! (i + 2))"
    and "j \<le> length (argv ! (i + 2))"
proof -
  from find_hashes_Some [OF assms]
  have i: "i < length (drop 2 argv)" and s: "strstr (drop 2 argv ! i) ''###'' = Some j"
    by simp_all
  show len: "i + 2 < length argv"
    using i by simp
  have "drop 2 argv ! i = argv ! (2 + i)"
    using len by (intro nth_drop) simp
  then have a: "drop 2 argv ! i = argv ! (i + 2)"
    by (simp add: add.commute)
  from strstr_Some [OF s]
  have st: "starts_with (drop j (argv ! (i + 2))) ''###''"
    and j: "j + 3 \<le> length (argv ! (i + 2))"
    by (simp_all add: a)
  show "starts_with (drop j (argv ! (i + 2))) ''###''"
    by (rule st)
  show "j \<le> length (argv ! (i + 2))"
    using j by simp
  have "drop j (argv ! (i + 2)) = ''###'' @ drop 3 (drop j (argv ! (i + 2)))"
    using st by (metis append_take_drop_id starts_with_def length_Cons list.size(3)
        numeral_3_eq_3)
  then have "argv ! (i + 2) = take j (argv ! (i + 2)) @ ''###'' @ drop 3 (drop j (argv ! (i + 2)))"
    by (metis append_take_drop_id)
  then show "argv ! (i + 2) = take j (argv ! (i + 2)) @ ''###'' @ drop (j + 3) (argv ! (i + 2))"
    by (simp add: add.commute)
qed

lemma main_launch_found:
  assumes "find_hashes (drop 2 argv) = Some (i, j)"
    and "get_tokens w p = Some (Return tokens, p1)"
    and "NUL \<notin> set (argv ! (i + 2))"
  shows "main w argv p =
           Some (launch w (argv[i + 2 := take j (argv ! (i + 2)) @ decimal (unat tokens + 1)
                                            @ drop (j + 3) (argv ! (i + 2))]) p1)"
proof -
  note m = found_marker [OF assms(1)]
  define a where "a = argv ! (i + 2)"
  have t: "unat tokens \<le> 507"
    using get_tokens_result [OF assms(2)] by simp
  then have lt: "tokens < 999"
    by (simp add: word_less_nat_alt)
  have "NUL \<notin> set (take j a)" "NUL \<notin> set (drop (j + 3) a)"
    using assms(3) by (auto simp: a_def dest: in_set_takeD in_set_dropD)
  then have "rewrite (take j a @ ''###'' @ drop (j + 3) a) (length (take j a)) tokens
          = Some (take j a @ decimal (unat tokens + 1) @ drop (j + 3) a)"
    using t by (intro rewrite_marker) simp_all
  moreover have "length (take j a) = j"
    using m(4) by (simp add: a_def)
  ultimately have rw: "rewrite a j tokens
          = Some (take j a @ decimal (unat tokens + 1) @ drop (j + 3) a)"
    using m(3) by (simp add: a_def)
  have "\<not> length argv < 2" "\<not> length argv < 3"
    using m(1) by simp_all
  then show ?thesis
    using assms lt m(2) rw by (simp add: main_def a_def)
qed

lemma main_launch:
  assumes "marker_at argv k pre post"
    and "get_tokens w p = Some (Return tokens, p1)"
    and "c_strings argv"
  shows "main w argv p
           = Some (launch w (argv[k := pre @ decimal (unat tokens + 1) @ post]) p1)"
proof -
  have k: "2 \<le> k" "k < length argv" and arg: "argv ! k = pre @ ''###'' @ post"
    using assms(1) by (simp_all add: marker_at_def first_at_def)
  have k2: "k - 2 + 2 = k"
    using k by simp
  have "NUL \<notin> set (argv ! k)"
    using assms(3) k(2) by (simp add: c_strings_def list_all_length)
  then have "NUL \<notin> set (argv ! (k - 2 + 2))"
    unfolding k2 .
  then have "main w argv p =
          Some (launch w (argv[k - 2 + 2 := take (length pre) (argv ! (k - 2 + 2))
                                 @ decimal (unat tokens + 1)
                                 @ drop (length pre + 3) (argv ! (k - 2 + 2))]) p1)"
    by (rule main_launch_found [OF marker_found [OF assms(1)] assms(2)])
  then show ?thesis
    unfolding k2 arg by simp
qed

lemma main_no_abort:
  assumes "main w argv p = Some (out, argv', p')"
  shows "out \<noteq> Abort"
proof (cases "length argv < 2")
  case True
  with assms show ?thesis
    by (auto simp: main_def)
next
  case False
  show ?thesis
  proof (cases "if length argv < 3 then None else find_hashes (drop 2 argv)")
    case None
    with False assms show ?thesis
      by (auto simp: main_def)
  next
    case (Some ij)
    obtain i j where ij: "ij = (i, j)"
      by (cases ij)
    from Some ij have f: "find_hashes (drop 2 argv) = Some (i, j)"
      by (simp split: if_splits)
    from assms False Some ij obtain r p1 where g: "get_tokens w p = Some (r, p1)"
      by (auto simp: main_def split: option.splits)
    from get_tokens_result [OF g] show ?thesis
    proof
      assume "\<exists>t. r = Return t \<and> unat t \<le> 507"
      then obtain t where "r = Return t"
        by blast
      with g have "get_tokens w p = Some (Return t, p1)"
        by simp
      then have g': "get_tokens w p = Some (Return t, p1)" .
      have t: "unat t \<le> 507"
        using get_tokens_result [OF g'] by simp
      then have lt: "t < 999"
        by (simp add: word_less_nat_alt)
      note m = found_marker [OF f]
      obtain a' where rw: "rewrite (argv ! (i + 2)) j t = Some a'"
        using rewrite_some [of t j "argv ! (i + 2)"] t m(2) by auto
      have "\<not> length argv < 3"
        using m(1) by simp
      with assms False f g' lt m(2) rw
      have "launch w (argv[i + 2 := a']) p1 = (out, argv', p')"
        by (simp add: main_def)
      then show ?thesis
        by (cases "execvp_errno w") (auto simp: launch_def Let_def)
    next
      assume "r = Stop (Exit EX_OK)"
      with g assms False Some ij show ?thesis
        by (auto simp: main_def)
    qed
  qed
qed

subsection \<open>The fall-back when no child can be created\<close>


lemma ex_child:
  "create_child (example_world\<lparr>fork_ret := 0\<rparr>) 13 example_proc =
     Some (Stop (Exit EX_OK),
           example_proc\<lparr>fds := {0, 1, 2, 3, 4, 5},
             trace := [Pipe (Some (5, 6)), Fork 0, Close 6, Read 5 1 (- 1), Read 5 1 0,
                       Write 4 8 8, Write 4 5 (- 1), Write 4 5 3, Write 4 2 2]\<rparr>)"
  by (auto simp: create_child_def example_world_def example_proc_def sys_pipe_def
        sys_close_def emit_def aux_ret_def sys_write_def write_errno_def Let_def)

lemma ex_get_degraded:
  "get_tokens (example_world\<lparr>pipe_ret := None, execvp_errno := x\<rparr>)
       (start example_env {0, 1, 2, 3, 4}) =
     Some (Return 0,
           example_proc\<lparr>trace := [Fcntl 3 0, Open ''/proc/self/fd/3'' 5, Read 5 8 8, Read 5 8 5,
                       Read 5 8 (- 1), Close 5, Pipe None,
                       Write 4 8 8, Write 4 5 (- 1), Write 4 5 3, Write 4 2 2]\<rparr>)"
  by (simp add: get_tokens_def ex_parse)
     (auto simp: example_world_def example_proc_def O_RDONLY_def O_NONBLOCK_def O_CLOEXEC_def emit_def sys_open_def
        decimal_int_def decimal.simps drain_and_fork_def ex_drain sys_close_def
        create_child_def sys_pipe_def sys_write_def write_errno_def Let_def)

lemma decimal_1: "decimal (Suc 0) = ''1''"
  by (simp add: decimal.simps)

lemma create_child_gives_up:
  assumes "pipe_ret w = None \<or> fork_ret w < 0"
  shows "create_child w tokens p
           = map_option (Pair (Return 0)) (put_tokens (writes w) tokens (give_up w p))"
proof (cases "pipe_ret w")
  case None
  then show ?thesis
    by (simp add: create_child_def give_up_def sys_pipe_def emit_def)
next
  case (Some ab)
  obtain a b where ab: "ab = (a, b)"
    by (cases ab)
  have fork: "fork_ret w < 0"
    using assms Some by simp
  have "fds p \<union> {a, b} - {a} - {b} = fds p - {a, b}"
    by auto
  then show ?thesis
    using Some ab fork
    by (simp add: create_child_def give_up_def sys_pipe_def sys_close_def emit_def)
qed

lemma get_tokens_gives_up:
  assumes "pipe_ret w = None \<or> fork_ret w < 0"
    and "get_tokens w p = Some (r, p1)"
  shows "r = Return 0"
proof -
  obtain e p0 where pe: "parse_env p = (Return e, p0)"
    using parse_env_no_abort [of p] by (cases "parse_env p"; cases "fst (parse_env p)") auto
  have daf: "r = Return 0" if h: "drain_and_fork w nb fd q = Some (r, p1)" for nb fd q
  proof -
    obtain tokens ch q1 where d: "drain nb fd (jobserver w) 0 q = Some (tokens, ch, q1)"
      using h by (auto simp: drain_and_fork_def split: option.splits)
    show ?thesis
    proof (cases "tokens = 0")
      case True
      with h d show ?thesis
        by (auto simp: drain_and_fork_def)
    next
      case False
      with h d show ?thesis
        by (auto simp: drain_and_fork_def create_child_gives_up [OF assms(1)] Let_def
            split: option.splits)
    qed
  qed
  from assms(2) pe consider "r = Return 0"
    | nb fd q where "drain_and_fork w nb fd q = Some (r, p1)"
    by (auto simp: get_tokens_def Let_def split: if_splits)
  then show ?thesis
    using daf by cases blast+
qed

subsection \<open>The child of a parent that holds tokens\<close>








lemma reads_after_exit: "AuxEOF \<in> set (reads_after (Exit c) rs)"
  by (simp add: reads_after_def)








section \<open>The claims\<close>

text \<open>
  Claim C1. When \<^verbatim>\<open>pipe\<close> and \<^verbatim>\<open>fork\<close> succeed, the child (the process in which \<^verbatim>\<open>fork\<close>
  returned 0) closes the write end of the auxiliary pipe, waits on the read end, and then
  gives every token back: provided that the wait ends (end of file is reached), that no
  write fails for good, and that the jobserver takes the bytes in the end, the child
  reaches \<^verbatim>\<open>_exit(EX_OK)\<close>, and between the wait and the exit its log holds writes to
  \<^verbatim>\<open>wfd\<close> only, each of at most eight bytes, that put exactly \<open>tokens\<close> bytes into \<^verbatim>\<open>wfd\<close>.
\<close>

theorem watcher_returns_every_token:
  assumes "tokens \<noteq> 0"
    and "pipe_ret w = Some (pipefd0, pipefd1)" and "fork_ret w = 0"
    and "AuxEOF \<in> set (aux_reads w)"
    and "transient (writes w)" and "unat tokens \<le> capacity (writes w)"
  shows "\<exists>rd wr.
           create_child w tokens p =
             Some (Stop (Exit EX_OK),
                   p\<lparr>fds := (fds p \<union> {pipefd0, pipefd1}) - {pipefd1},
                     trace := trace p @ [Pipe (Some (pipefd0, pipefd1)), Fork 0, Close pipefd1]
                                @ rd @ wr\<rparr>)
           \<and> waits pipefd0 rd
           \<and> return_writes (wfd p) wr
           \<and> written (wfd p) wr = unat tokens"
proof -
  define p1 where
    "p1 = sys_close pipefd1 (emit (Fork 0) (sys_pipe (Some (pipefd0, pipefd1)) p))"
  have p1: "p1 = p\<lparr>fds := (fds p \<union> {pipefd0, pipefd1}) - {pipefd1},
                    trace := trace p @ [Pipe (Some (pipefd0, pipefd1)), Fork 0, Close pipefd1]\<rparr>"
    by (simp add: p1_def sys_close_def sys_pipe_def emit_def)
  from wait_read_ends [OF assms(4), of pipefd0 p1] obtain rd where
    rd: "wait_read (aux_reads w) pipefd0 p1 = Some (p1\<lparr>trace := trace p1 @ rd\<rparr>)"
      "waits pipefd0 rd"
    by blast
  define p2 where "p2 = p1\<lparr>trace := trace p1 @ rd\<rparr>"
  from put_tokens_returns [OF assms(5,6), of p2] obtain wr where
    wr: "put_tokens (writes w) tokens p2 = Some (p2\<lparr>trace := trace p2 @ wr\<rparr>)"
      "return_writes (wfd p2) wr" "written (wfd p2) wr = unat tokens"
    by blast
  have "create_child w tokens p = Some (Stop (Exit EX_OK), p2\<lparr>trace := trace p2 @ wr\<rparr>)"
    using assms(2,3) rd(1) wr(1) by (simp add: create_child_def p1_def [symmetric] p2_def)
  moreover have "wfd p2 = wfd p"
    by (simp add: p2_def p1)
  ultimately show ?thesis
    using rd(2) wr(2,3) by (intro exI [of _ rd] exI [of _ wr]) (simp add: p2_def p1)
qed

theorem watcher_returns_every_token_witness:
  "(13 :: u32) \<noteq> 0
   \<and> pipe_ret (example_world\<lparr>fork_ret := 0\<rparr>) = Some (5, 6)
   \<and> fork_ret (example_world\<lparr>fork_ret := 0\<rparr>) = 0
   \<and> AuxEOF \<in> set (aux_reads (example_world\<lparr>fork_ret := 0\<rparr>))
   \<and> transient (writes (example_world\<lparr>fork_ret := 0\<rparr>))
   \<and> unat (13 :: u32) \<le> capacity (writes (example_world\<lparr>fork_ret := 0\<rparr>))
   \<and> (\<exists>rd wr.
         create_child (example_world\<lparr>fork_ret := 0\<rparr>) 13 example_proc =
           Some (Stop (Exit EX_OK),
                 example_proc\<lparr>fds := (fds example_proc \<union> {5, 6}) - {6},
                   trace := trace example_proc @ [Pipe (Some (5, 6)), Fork 0, Close 6]
                              @ rd @ wr\<rparr>)
         \<and> waits 5 rd
         \<and> return_writes (wfd example_proc) wr
         \<and> written (wfd example_proc) wr = unat (13 :: u32))"
proof -
  have h: "(13 :: u32) \<noteq> 0"
    "pipe_ret (example_world\<lparr>fork_ret := 0\<rparr>) = Some (5, 6)"
    "fork_ret (example_world\<lparr>fork_ret := 0\<rparr>) = 0"
    "AuxEOF \<in> set (aux_reads (example_world\<lparr>fork_ret := 0\<rparr>))"
    "transient (writes (example_world\<lparr>fork_ret := 0\<rparr>))"
    "unat (13 :: u32) \<le> capacity (writes (example_world\<lparr>fork_ret := 0\<rparr>))"
    by (simp_all add: example_world_def transient_def capacity_def write_errno_def)
  from watcher_returns_every_token [OF h, of example_proc] h show ?thesis
    by blast
qed

text \<open>
  Claim C2, as amended. The loop reads eight bytes at a time and stops at the first of: a
  read that would block, a read of zero bytes, the count having reached 500. The count is
  compared with 500 before each read, not after it, so from a jobserver pipe that holds
  \<open>t\<close> bytes and that nobody else touches meanwhile it takes \<open>min t 504\<close> tokens, not
  \<open>min t 500\<close>, and leaves the other bytes in the pipe. In full:

    \<^item> through a non-blocking descriptor, from a pipe holding \<open>t\<close> bytes, the loop returns
      with \<open>min t 504\<close> tokens, has left \<open>t - min t 504\<close> bytes, and has done nothing but
      reads from \<open>fd\<close>;
    \<^item> a read of zero bytes after \<open>k\<close> reads of eight bytes (\<open>8 * k < 500\<close>) ends the loop
      with \<open>8 * k\<close> tokens, the rest of the pipe untouched; so does a read that fails;
    \<^item> once 504 bytes are read the loop ends with no further read, whatever the next
      read would have met;
    \<^item> \<open>get_tokens\<close> runs the loop on a non-blocking descriptor whether \<^verbatim>\<open>rfd\<close> is in
      non-blocking mode or not: when \<^verbatim>\<open>fcntl\<close> and, where it is needed, \<^verbatim>\<open>open\<close> succeed
      and the parent's \<^verbatim>\<open>pipe\<close> and \<^verbatim>\<open>fork\<close> do, it returns, with \<open>min t 504\<close> tokens.
\<close>

theorem drain_takes_what_is_queued:
  "(\<exists>T tr. drain True fd \<lparr>queued = t, future = []\<rparr> 0 p =
             Some (T, \<lparr>queued = t - min t 504, future = []\<rparr>, p\<lparr>trace := trace p @ tr\<rparr>)
           \<and> unat T = min t 504 \<and> reads fd tr)
   \<and> (k < 63 \<longrightarrow>
         drain nb fd \<lparr>queued = 8 * k + u, future = replicate k Calm @ Eof # rest\<rparr> 0 p =
           Some (of_nat (8 * k), \<lparr>queued = u, future = rest\<rparr>,
                 p\<lparr>trace := trace p @ replicate k (Read fd 8 8) @ [Read fd 8 0]\<rparr>)
         \<and> drain nb fd \<lparr>queued = 8 * k + u, future = replicate k Calm @ Fault e # rest\<rparr> 0 p =
             Some (of_nat (8 * k), \<lparr>queued = u, future = rest\<rparr>,
                   p\<lparr>trace := trace p @ replicate k (Read fd 8 8) @ [Read fd 8 (- 1)]\<rparr>))
   \<and> drain nb fd \<lparr>queued = 504 + u, future = replicate 63 Calm @ rest\<rparr> 0 p =
       Some (504, \<lparr>queued = u, future = rest\<rparr>,
             p\<lparr>trace := trace p @ replicate 63 (Read fd 8 8)\<rparr>)
   \<and> (parse_env q = (Return 0, q1)
        \<and> 0 \<le> fcntl_ret w \<and> (fcntl_ret w AND O_NONBLOCK = 0 \<longrightarrow> 0 \<le> open_ret w)
        \<and> jobserver w = \<lparr>queued = t, future = []\<rparr>
        \<and> pipe_ret w = Some (pipefd0, pipefd1) \<and> 0 < fork_ret w \<longrightarrow>
      (\<exists>T q'. get_tokens w q = Some (Return T, q') \<and> unat T = min t 504))"
proof -
  from drain_quiet [of "\<lparr>queued = t, future = []\<rparr>" 0 fd p] obtain T p' where
    d: "drain True fd \<lparr>queued = t, future = []\<rparr> 0 p
          = Some (T, \<lparr>queued = t - min t 504, future = []\<rparr>, p')"
    and T: "unat T = min t 504"
    by auto
  from drain_frame [OF d] obtain tr where
    tr: "p' = p\<lparr>trace := trace p @ tr\<rparr>" "reads fd tr"
    by blast
  have idle: "\<exists>T tr. drain True fd \<lparr>queued = t, future = []\<rparr> 0 p =
             Some (T, \<lparr>queued = t - min t 504, future = []\<rparr>, p\<lparr>trace := trace p @ tr\<rparr>)
           \<and> unat T = min t 504 \<and> reads fd tr"
    using d T tr by blast
  have stop: "k < 63 \<longrightarrow>
         drain nb fd \<lparr>queued = 8 * k + u, future = replicate k Calm @ Eof # rest\<rparr> 0 p =
           Some (of_nat (8 * k), \<lparr>queued = u, future = rest\<rparr>,
                 p\<lparr>trace := trace p @ replicate k (Read fd 8 8) @ [Read fd 8 0]\<rparr>)
         \<and> drain nb fd \<lparr>queued = 8 * k + u, future = replicate k Calm @ Fault e # rest\<rparr> 0 p =
             Some (of_nat (8 * k), \<lparr>queued = u, future = rest\<rparr>,
                   p\<lparr>trace := trace p @ replicate k (Read fd 8 8) @ [Read fd 8 (- 1)]\<rparr>)"
    using drain_stops_on [of k Eof 0 e nb fd u rest p]
      drain_stops_on [of k "Fault e" "- 1" e nb fd u rest p]
    by simp
  have get: "parse_env q = (Return 0, q1)
        \<and> 0 \<le> fcntl_ret w \<and> (fcntl_ret w AND O_NONBLOCK = 0 \<longrightarrow> 0 \<le> open_ret w)
        \<and> jobserver w = \<lparr>queued = t, future = []\<rparr>
        \<and> pipe_ret w = Some (pipefd0, pipefd1) \<and> 0 < fork_ret w \<longrightarrow>
      (\<exists>T q'. get_tokens w q = Some (Return T, q') \<and> unat T = min t 504)"
    using get_tokens_quiet [of q q1 w t pipefd0 pipefd1] by blast
  show ?thesis
    using idle stop drain_stops_at_ceiling [of nb fd u rest p] get by blast
qed

theorem drain_takes_what_is_queued_witness:
  "(\<exists>T tr. drain True 5 \<lparr>queued = 13, future = []\<rparr> 0 example_proc =
             Some (T, \<lparr>queued = 0, future = []\<rparr>, example_proc\<lparr>trace := tr\<rparr>)
           \<and> unat T = 13 \<and> reads 5 tr)
   \<and> drain False 5 \<lparr>queued = 13, future = [Calm, Eof, Arrive 3]\<rparr> 0 example_proc =
       Some (8, \<lparr>queued = 5, future = [Arrive 3]\<rparr>,
             example_proc\<lparr>trace := [Read 5 8 8, Read 5 8 0]\<rparr>)
   \<and> parse_env (start example_env {0, 1, 2, 3, 4}) = (Return 0, example_proc)
   \<and> 0 \<le> fcntl_ret example_world \<and> 0 \<le> open_ret example_world
   \<and> jobserver example_world = \<lparr>queued = 13, future = []\<rparr>
   \<and> pipe_ret example_world = Some (5, 6) \<and> 0 < fork_ret example_world
   \<and> (\<exists>T q'. get_tokens example_world (start example_env {0, 1, 2, 3, 4}) = Some (Return T, q')
              \<and> unat T = 13)"
proof -
  have h: "0 \<le> fcntl_ret example_world" "0 \<le> open_ret example_world"
    "jobserver example_world = \<lparr>queued = 13, future = []\<rparr>"
    "pipe_ret example_world = Some (5, 6)" "0 < fork_ret example_world"
    by (simp_all add: example_world_def)
  from drain_takes_what_is_queued
    [where fd = 5 and t = 13 and p = example_proc and k = 1 and u = 5 and nb = False
       and rest = "[Arrive 3]" and q = "start example_env {0, 1, 2, 3, 4}"
       and ?q1.0 = example_proc and w = example_world and ?pipefd0.0 = 5 and ?pipefd1.0 = 6]
    ex_parse h
  show ?thesis
    by (simp add: example_proc_def)
qed

text \<open>
  With 501 bytes in the pipe the loop takes 501 tokens: 62 reads bring the count to 496,
  which is below 500, and the next read adds the five bytes that are left.
\<close>

theorem drain_passes_500:
  "drain True 5 \<lparr>queued = 501, future = []\<rparr> 0 example_proc =
     Some (501, \<lparr>queued = 0, future = []\<rparr>,
           example_proc\<lparr>trace := replicate 62 (Read 5 8 8) @ [Read 5 8 5]\<rparr>)
   \<and> unat (501 :: u32) \<noteq> min 501 500"
proof -
  have "drain True 5 \<lparr>queued = 501, future = []\<rparr> 0 example_proc
          = drain True 5 \<lparr>queued = 501 - 8 * 62, future = drop 62 []\<rparr> (0 + of_nat (8 * 62))
              (example_proc\<lparr>trace := trace example_proc @ replicate 62 (Read 5 8 8)\<rparr>)"
    by (intro drain_full_reads) simp_all
  also have "\<dots> = drain True 5 \<lparr>queued = 5, future = []\<rparr> 496
                      (example_proc\<lparr>trace := replicate 62 (Read 5 8 8)\<rparr>)"
    by (simp add: example_proc_def)
  also have "\<dots> = Some (501, \<lparr>queued = 0, future = []\<rparr>,
           example_proc\<lparr>trace := replicate 62 (Read 5 8 8) @ [Read 5 8 5]\<rparr>)"
    by (simp add: drain.simps [of True 5 _ 496] drain.simps [of True 5 _ 501]
        sys_read_def emit_def Let_def example_proc_def)
  finally show ?thesis
    by simp
qed





text \<open>
  Claim C4, as amended. After the \<^verbatim>\<open>fork\<close>, the parent closes the read end of the
  auxiliary pipe and keeps the write end open (the command it becomes inherits it); the
  child closes the write end first of all, and never closes the read end. For the child
  this is stated twice: when its wait ends and the tokens can be written, the child runs to
  its \<^verbatim>\<open>_exit\<close>, with the write end closed right after the \<^verbatim>\<open>fork\<close>, the read end open and
  never closed; and whatever the reads and writes meet, every run of the child that comes
  to an end has done so.
\<close>

theorem ends_of_the_auxiliary_pipe_after_fork:
  assumes "pipe_ret w = Some (pipefd0, pipefd1)" and "pipefd0 \<noteq> pipefd1"
    and "0 < fork_ret w"
  shows "create_child w tokens p =
           Some (Return (sint tokens),
                 p\<lparr>fds := insert pipefd1 (fds p) - {pipefd0},
                   trace := trace p @ [Pipe (Some (pipefd0, pipefd1)), Fork (fork_ret w),
                                       Close pipefd0]\<rparr>)
         \<and> (AuxEOF \<in> set (aux_reads w) \<and> transient (writes w)
              \<and> unat tokens \<le> capacity (writes w) \<longrightarrow>
            (\<exists>rest. create_child (w\<lparr>fork_ret := 0\<rparr>) tokens p =
                      Some (Stop (Exit EX_OK),
                            p\<lparr>fds := insert pipefd0 (fds p) - {pipefd1},
                              trace := trace p @ [Pipe (Some (pipefd0, pipefd1)), Fork 0,
                                                  Close pipefd1] @ rest\<rparr>)
                    \<and> \<not> closes pipefd0 rest))
         \<and> (\<forall>r p'. create_child (w\<lparr>fork_ret := 0\<rparr>) tokens p = Some (r, p') \<longrightarrow>
               fds p' = insert pipefd0 (fds p) - {pipefd1}
               \<and> (\<exists>rest. trace p' = trace p @ [Pipe (Some (pipefd0, pipefd1)), Fork 0,
                                               Close pipefd1] @ rest
                         \<and> \<not> closes pipefd0 rest))"
proof -
  define p1 where
    "p1 = sys_close pipefd1 (emit (Fork 0) (sys_pipe (Some (pipefd0, pipefd1)) p))"
  have p1: "p1 = p\<lparr>fds := insert pipefd0 (fds p) - {pipefd1},
                    trace := trace p @ [Pipe (Some (pipefd0, pipefd1)), Fork 0, Close pipefd1]\<rparr>"
  proof -
    have "fds p \<union> {pipefd0, pipefd1} - {pipefd1} = insert pipefd0 (fds p) - {pipefd1}"
      by auto
    then show ?thesis
      by (simp add: p1_def sys_close_def sys_pipe_def emit_def)
  qed
  have child: "create_child (w\<lparr>fork_ret := 0\<rparr>) tokens p =
                 (case wait_read (aux_reads w) pipefd0 p1 of
                    None \<Rightarrow> None
                  | Some p2 \<Rightarrow>
                      map_option (Pair (Stop (Exit EX_OK))) (put_tokens (writes w) tokens p2))"
    using assms(1) by (simp add: create_child_def p1_def cong: option.case_cong)
  have parent: "create_child w tokens p =
           Some (Return (sint tokens),
                 p\<lparr>fds := insert pipefd1 (fds p) - {pipefd0},
                   trace := trace p @ [Pipe (Some (pipefd0, pipefd1)), Fork (fork_ret w),
                                       Close pipefd0]\<rparr>)"
  proof -
    have "fds p \<union> {pipefd0, pipefd1} - {pipefd0} = insert pipefd1 (fds p) - {pipefd0}"
      by auto
    then show ?thesis
      using assms by (simp add: create_child_def sys_close_def sys_pipe_def emit_def)
  qed
  have total: "\<exists>rest. create_child (w\<lparr>fork_ret := 0\<rparr>) tokens p =
                      Some (Stop (Exit EX_OK),
                            p\<lparr>fds := insert pipefd0 (fds p) - {pipefd1},
                              trace := trace p @ [Pipe (Some (pipefd0, pipefd1)), Fork 0,
                                                  Close pipefd1] @ rest\<rparr>)
                    \<and> \<not> closes pipefd0 rest"
    if h: "AuxEOF \<in> set (aux_reads w) \<and> transient (writes w)
             \<and> unat tokens \<le> capacity (writes w)"
  proof -
    from h wait_read_ends [of "aux_reads w" pipefd0 p1] obtain rd where
      rd: "wait_read (aux_reads w) pipefd0 p1 = Some (p1\<lparr>trace := trace p1 @ rd\<rparr>)"
        "waits pipefd0 rd"
      by blast
    define p2 where "p2 = p1\<lparr>trace := trace p1 @ rd\<rparr>"
    from h put_tokens_returns [of "writes w" tokens p2] obtain wr where
      wr: "put_tokens (writes w) tokens p2 = Some (p2\<lparr>trace := trace p2 @ wr\<rparr>)"
        "return_writes (wfd p2) wr"
      by blast
    have no: "\<not> closes pipefd0 (rd @ wr)"
      using waits_no_close [OF rd(2), of pipefd0] return_writes_no_close [OF wr(2), of pipefd0]
      by (simp add: closes_def)
    have "create_child (w\<lparr>fork_ret := 0\<rparr>) tokens p =
            Some (Stop (Exit EX_OK),
                  p\<lparr>fds := insert pipefd0 (fds p) - {pipefd1},
                    trace := trace p @ [Pipe (Some (pipefd0, pipefd1)), Fork 0,
                                        Close pipefd1] @ (rd @ wr)\<rparr>)"
      using rd(1) wr(1) by (simp add: child p2_def [symmetric]) (simp add: p2_def p1)
    then show ?thesis
      using no by blast
  qed
  have every: "fds p' = insert pipefd0 (fds p) - {pipefd1}
        \<and> (\<exists>rest. trace p' = trace p @ [Pipe (Some (pipefd0, pipefd1)), Fork 0,
                                        Close pipefd1] @ rest
                  \<and> \<not> closes pipefd0 rest)"
    if run: "create_child (w\<lparr>fork_ret := 0\<rparr>) tokens p = Some (r, p')" for r p'
  proof -
    from run obtain p2 where
      p2: "wait_read (aux_reads w) pipefd0 p1 = Some p2"
        and p3: "put_tokens (writes w) tokens p2 = Some p'"
      by (auto simp: child split: option.splits)
    from wait_read_frame [OF p2] obtain rd where
      rd: "p2 = p1\<lparr>trace := trace p1 @ rd\<rparr>" "waits pipefd0 rd"
      by blast
    from put_tokens_best_effort [OF p3] obtain wr where
      wr: "p' = p2\<lparr>trace := trace p2 @ wr\<rparr>" "return_writes (wfd p2) wr"
      by blast
    have no: "\<not> closes pipefd0 (rd @ wr)"
      using waits_no_close [OF rd(2), of pipefd0] return_writes_no_close [OF wr(2), of pipefd0]
      by (simp add: closes_def)
    have "fds p' = insert pipefd0 (fds p) - {pipefd1}"
      by (simp add: wr(1) rd(1) p1)
    moreover have "trace p' = trace p @ [Pipe (Some (pipefd0, pipefd1)), Fork 0,
                                        Close pipefd1] @ (rd @ wr)"
      by (simp add: wr(1) rd(1) p1)
    ultimately show ?thesis
      using no by blast
  qed
  show ?thesis
    using parent total every by blast
qed

theorem ends_of_the_auxiliary_pipe_after_fork_witness:
  "pipe_ret example_world = Some (5, 6) \<and> (5 :: int) \<noteq> 6 \<and> 0 < fork_ret example_world
   \<and> AuxEOF \<in> set (aux_reads example_world) \<and> transient (writes example_world)
   \<and> unat (13 :: u32) \<le> capacity (writes example_world)
   \<and> create_child example_world 13 example_proc =
        Some (Return 13,
              example_proc\<lparr>fds := {0, 1, 2, 3, 4, 6},
                trace := [Pipe (Some (5, 6)), Fork 4711, Close 5]\<rparr>)
   \<and> create_child (example_world\<lparr>fork_ret := 0\<rparr>) 13 example_proc =
        Some (Stop (Exit EX_OK),
           example_proc\<lparr>fds := {0, 1, 2, 3, 4, 5},
             trace := [Pipe (Some (5, 6)), Fork 0, Close 6, Read 5 1 (- 1), Read 5 1 0,
                       Write 4 8 8, Write 4 5 (- 1), Write 4 5 3, Write 4 2 2]\<rparr>)
   \<and> \<not> closes 5 [Read 5 1 (- 1), Read 5 1 0,
                       Write 4 8 8, Write 4 5 (- 1), Write 4 5 3, Write 4 2 2]"
proof -
  have h: "pipe_ret example_world = Some (5, 6)" "(5 :: int) \<noteq> 6" "0 < fork_ret example_world"
    by (simp_all add: example_world_def)
  have g: "AuxEOF \<in> set (aux_reads example_world)" "transient (writes example_world)"
    "unat (13 :: u32) \<le> capacity (writes example_world)"
    by (simp_all add: example_world_def transient_def capacity_def write_errno_def)
  have s: "insert 6 (fds example_proc) - {5} = {0, 1, 2, 3, 4, 6}"
    by (auto simp: example_proc_def)
  from ends_of_the_auxiliary_pipe_after_fork [OF h, of 13 example_proc] h g s ex_child
  show ?thesis
    by (simp add: example_proc_def example_world_def)
qed

text \<open>
  In the example the parent leaves \<open>create_child\<close> with descriptor 6, the write end of the
  auxiliary pipe, among its open descriptors; it has closed descriptor 5, the read end.
\<close>

theorem parent_keeps_the_write_end:
  "create_child example_world 13 example_proc =
     Some (Return 13,
           example_proc\<lparr>fds := {0, 1, 2, 3, 4, 6},
             trace := [Pipe (Some (5, 6)), Fork 4711, Close 5]\<rparr>)
   \<and> 6 \<in> fds (example_proc\<lparr>fds := {0, 1, 2, 3, 4, 6}\<rparr>)"
  by (auto simp: create_child_def example_world_def example_proc_def sys_pipe_def
        sys_close_def emit_def)

text \<open>
  Claim C5 fails on the code: the child's loop \<^verbatim>\<open>while (read(pipefd[0], &d, 1) < 0)\<close>
  ends on any read that does not fail. When a process that holds the write end writes a
  byte into the auxiliary pipe, the read returns 1 and the child gives the tokens back at
  once, although the write end is still open.
\<close>

theorem watcher_returns_on_a_byte:
  "create_child (example_world\<lparr>fork_ret := 0, aux_reads := [AuxByte]\<rparr>) 13 example_proc =
     Some (Stop (Exit EX_OK),
           example_proc\<lparr>fds := {0, 1, 2, 3, 4, 5},
             trace := [Pipe (Some (5, 6)), Fork 0, Close 6, Read 5 1 1,
                       Write 4 8 8, Write 4 5 (- 1), Write 4 5 3, Write 4 2 2]\<rparr>)"
  by (auto simp: create_child_def example_world_def example_proc_def sys_pipe_def
        sys_close_def emit_def aux_ret_def sys_write_def write_errno_def Let_def)

text \<open>
  Claim C6. In an argument vector of C strings let \<open>argv ! k\<close> be the first argument
  after the command name that contains \<^verbatim>\<open>###\<close>, and let it be \<open>pre @ ''###'' @ post\<close> at
  the first occurrence. When \<open>get_tokens\<close> returns \<open>tokens\<close>, \<open>main\<close> goes on to launch the
  command with that argument reading \<open>pre\<close>, the decimal text of \<open>tokens + 1\<close>, and
  \<open>post\<close>; the other arguments are as they were. The argument's length changes by the
  length of the number minus 3, and what followed the marker follows the number,
  unchanged.
\<close>

theorem marker_is_replaced_in_place:
  assumes "c_strings argv" and "marker_at argv k pre post"
    and "get_tokens w p = Some (Return tokens, p1)"
  shows "main w argv p
           = Some (launch w (argv[k := pre @ decimal (unat tokens + 1) @ post]) p1)
         \<and> fst (snd (launch w (argv[k := pre @ decimal (unat tokens + 1) @ post]) p1))
             = argv[k := pre @ decimal (unat tokens + 1) @ post]
         \<and> int (length (pre @ decimal (unat tokens + 1) @ post))
             = int (length (argv ! k)) + (int (length (decimal (unat tokens + 1))) - 3)
         \<and> drop (length pre + length (decimal (unat tokens + 1)))
               (pre @ decimal (unat tokens + 1) @ post) = post
         \<and> post = drop (length pre + 3) (argv ! k)"
proof -
  have arg: "argv ! k = pre @ ''###'' @ post"
    using assms(2) by (simp add: marker_at_def first_at_def)
  show ?thesis
    using main_launch [OF assms(2,3,1)] by (simp add: launch_outcome(2) arg)
qed

theorem marker_is_replaced_in_place_witness:
  "c_strings example_argv \<and> marker_at example_argv 2 ''-j'' []
   \<and> get_tokens example_world (start example_env {0, 1, 2, 3, 4}) =
       Some (Return 13,
             example_proc\<lparr>fds := {0, 1, 2, 3, 4, 6},
               trace := [Fcntl 3 0, Open ''/proc/self/fd/3'' 5, Read 5 8 8, Read 5 8 5,
                         Read 5 8 (- 1), Close 5, Pipe (Some (5, 6)), Fork 4711, Close 5]\<rparr>)
   \<and> main example_world example_argv (start example_env {0, 1, 2, 3, 4})
       = Some (launch example_world [''jobhog'', ''mybuild'', ''-j14'', ''--flag'']
           (example_proc\<lparr>fds := {0, 1, 2, 3, 4, 6},
               trace := [Fcntl 3 0, Open ''/proc/self/fd/3'' 5, Read 5 8 8, Read 5 8 5,
                         Read 5 8 (- 1), Close 5, Pipe (Some (5, 6)), Fork 4711, Close 5]\<rparr>))"
  using marker_is_replaced_in_place [OF ex_c_strings ex_marker ex_get] ex_c_strings ex_marker
    ex_get
  by (simp add: example_argv_def decimal.simps)

text \<open>
  Claim C7. When the command is missing, or no argument after the command name contains
  \<^verbatim>\<open>###\<close>, the program exits with \<^verbatim>\<open>EX_USAGE\<close>. Its only action is the call of
  \<^verbatim>\<open>error\<close>: the log gains that one entry, and the descriptors, the environment and the
  argument vector are as before, so nothing was read, no process was created and
  \<^verbatim>\<open>MAKEFLAGS\<close> was not removed.
\<close>

theorem usage_error_has_no_effect:
  assumes "length argv < 2 \<or> list_all (\<lambda>a. \<not> sublist ''###'' a) (drop 2 argv)"
  shows "\<exists>msg. main w argv p
           = Some (Exit EX_USAGE, argv, p\<lparr>trace := trace p @ [Error EX_USAGE None msg]\<rparr>)"
proof (cases "length argv < 2")
  case True
  then show ?thesis
    by (intro exI [of _ "''missing command''"]) (simp add: main_def emit_def)
next
  case False
  with assms have "find_hashes (drop 2 argv) = None"
    by (intro find_hashes_None) simp
  with False show ?thesis
    by (intro exI [of _ "''missing ### argument''"]) (simp add: main_def emit_def)
qed

theorem usage_error_has_no_effect_witness:
  "(length [''jobhog'', ''mybuild'', ''-j##''] < 2
      \<or> list_all (\<lambda>a. \<not> sublist ''###'' a) (drop 2 [''jobhog'', ''mybuild'', ''-j##'']))
   \<and> (\<exists>msg. main example_world [''jobhog'', ''mybuild'', ''-j##'']
                (start example_env {0, 1, 2, 3, 4})
           = Some (Exit EX_USAGE, [''jobhog'', ''mybuild'', ''-j##''],
                   (start example_env {0, 1, 2, 3, 4})\<lparr>trace := [Error EX_USAGE None msg]\<rparr>))"
proof -
  have h: "length [''jobhog'', ''mybuild'', ''-j##''] < 2
      \<or> list_all (\<lambda>a. \<not> sublist ''###'' a) (drop 2 [''jobhog'', ''mybuild'', ''-j##''])"
    by (simp add: sublist_code)
  from usage_error_has_no_effect [OF h, of example_world "start example_env {0, 1, 2, 3, 4}"] h
  show ?thesis
    by (simp add: start_def)
qed

text \<open>
  Claim C8. When \<^verbatim>\<open>MAKEFLAGS\<close> is not set, or holds neither \<^verbatim>\<open>--jobserver-auth=\<close> nor
  \<^verbatim>\<open>--jobserver-fds=\<close>, or the text after the option that is found (the first
  \<^verbatim>\<open>--jobserver-auth=\<close>, else the first \<^verbatim>\<open>--jobserver-fds=\<close>) is not two decimal numbers
  with a comma between them, then \<open>get_tokens\<close> returns 0 without any system call: only
  the variables \<^verbatim>\<open>rfd\<close> and \<^verbatim>\<open>wfd\<close> may have changed. The program goes on to launch the
  command with \<^verbatim>\<open>1\<close> in the place of the marker.
\<close>

theorem no_channel_means_one_slot:
  assumes "c_strings argv" and "marker_at argv k pre post"
    and "env = None
         \<or> (\<exists>e. env = Some e \<and> \<not> sublist ''--jobserver-auth='' e
                  \<and> \<not> sublist ''--jobserver-fds='' e)
         \<or> (\<exists>e. env = Some e
                  \<and> (first_at ''--jobserver-auth='' e before rest
                       \<or> (\<not> sublist ''--jobserver-auth='' e
                            \<and> first_at ''--jobserver-fds='' e before rest))
                  \<and> \<not> is_pair rest)"
  shows "\<exists>a b.
           get_tokens w (start env inherited)
             = Some (Return 0, (start env inherited)\<lparr>rfd := a, wfd := b\<rparr>)
           \<and> jobhog w env inherited argv
             = Some (launch w (argv[k := pre @ ''1'' @ post])
                       ((start env inherited)\<lparr>rfd := a, wfd := b\<rparr>))"
proof -
  define p where "p = start env inherited"
  have mf: "makeflags p = env"
    by (simp add: p_def start_def)
  have same: "p = p\<lparr>rfd := rfd p, wfd := wfd p\<rparr>"
    by simp
  from assms(3) consider
    (unset) "env = None"
    | (absent) e where "env = Some e" "\<not> sublist ''--jobserver-auth='' e"
        "\<not> sublist ''--jobserver-fds='' e"
    | (bad) e where "env = Some e"
        "first_at ''--jobserver-auth='' e before rest
         \<or> (\<not> sublist ''--jobserver-auth='' e \<and> first_at ''--jobserver-fds='' e before rest)"
        "\<not> is_pair rest"
    by blast
  then have "\<exists>a b. parse_env p = (Return (- 1), p\<lparr>rfd := a, wfd := b\<rparr>)"
  proof cases
    case unset
    then have "parse_env p = (Return (- 1), p)"
      using mf by (intro parse_env_absent) simp
    with same show ?thesis
      by metis
  next
    case absent
    then have "parse_env p = (Return (- 1), p)"
      using mf by (intro parse_env_absent) simp
    with same show ?thesis
      by metis
  next
    case bad
    obtain n a b where sc: "sscanf_pair (CHR ''='' # rest) (rfd p, wfd p) = (n, (a, b))"
      by (metis surj_pair)
    have "n \<noteq> 2"
      using bad(3) sscanf_pair_2 [of rest "(rfd p, wfd p)"] sc by auto
    then have "parse_env p = (Return (- 1), p\<lparr>rfd := a, wfd := b\<rparr>)"
      using parse_env_located [OF _ bad(2), of p] mf bad(1) sc by simp
    then show ?thesis
      by blast
  qed
  then obtain a b where pe: "parse_env p = (Return (- 1), p\<lparr>rfd := a, wfd := b\<rparr>)"
    by blast
  have g: "get_tokens w p = Some (Return 0, p\<lparr>rfd := a, wfd := b\<rparr>)"
    by (rule get_tokens_degraded [OF pe])
  from main_launch [OF assms(2) g assms(1)]
  have "main w argv p = Some (launch w (argv[k := pre @ ''1'' @ post]) (p\<lparr>rfd := a, wfd := b\<rparr>))"
    by (simp add: decimal_1)
  with g show ?thesis
    unfolding jobhog_def p_def by blast
qed

theorem no_channel_means_one_slot_witness:
  "c_strings example_argv \<and> marker_at example_argv 2 ''-j'' []
   \<and> first_at ''--jobserver-auth='' ''--jobserver-auth=abc'' [] ''abc''
   \<and> \<not> is_pair ''abc''
   \<and> (\<exists>a b.
         get_tokens example_world (start (Some ''--jobserver-auth=abc'') {0, 1, 2, 3, 4})
           = Some (Return 0, (start (Some ''--jobserver-auth=abc'') {0, 1, 2, 3, 4})
                               \<lparr>rfd := a, wfd := b\<rparr>)
         \<and> jobhog example_world (Some ''--jobserver-auth=abc'') {0, 1, 2, 3, 4} example_argv
           = Some (launch example_world [''jobhog'', ''mybuild'', ''-j1'', ''--flag'']
                     ((start (Some ''--jobserver-auth=abc'') {0, 1, 2, 3, 4})
                        \<lparr>rfd := a, wfd := b\<rparr>)))"
proof -
  have f: "first_at ''--jobserver-auth='' ''--jobserver-auth=abc'' [] ''abc''"
    by (simp add: first_at_def sublist_code)
  have n: "\<not> is_pair ''abc''"
    by (simp add: is_pair_def scan_d_def isspace_def isdigit_def)
  have h: "Some ''--jobserver-auth=abc'' = None
         \<or> (\<exists>e. Some ''--jobserver-auth=abc'' = Some e \<and> \<not> sublist ''--jobserver-auth='' e
                  \<and> \<not> sublist ''--jobserver-fds='' e)
         \<or> (\<exists>e. Some ''--jobserver-auth=abc'' = Some e
                  \<and> (first_at ''--jobserver-auth='' e [] ''abc''
                       \<or> (\<not> sublist ''--jobserver-auth='' e
                            \<and> first_at ''--jobserver-fds='' e [] ''abc''))
                  \<and> \<not> is_pair ''abc'')"
    using f n by blast
  from no_channel_means_one_slot [OF ex_c_strings ex_marker h, of example_world "{0, 1, 2, 3, 4}"]
  show ?thesis
    using ex_c_strings ex_marker f n by (simp add: example_argv_def)
qed

text \<open>
  Claim C9. When \<^verbatim>\<open>pipe\<close> fails, or \<^verbatim>\<open>fork\<close> fails (both ends of the pipe are closed
  again then), \<open>create_child\<close> calls \<open>put_tokens\<close> in the main process at once and
  returns 0: whenever it returns, nothing but writes of at most eight bytes to \<^verbatim>\<open>wfd\<close>
  has followed the failed call; when no write fails for good and the jobserver takes
  the bytes, it does return and exactly \<open>tokens\<close> bytes were written. The program is not
  ended: \<open>get_tokens\<close> reports 0 tokens, and \<open>main\<close> launches the command with \<^verbatim>\<open>1\<close> in
  the place of the marker.
\<close>

theorem degraded_return_is_immediate:
  assumes "pipe_ret w = None \<or> fork_ret w < 0"
  shows "(\<forall>r p'. create_child w tokens p = Some (r, p') \<longrightarrow>
            r = Return 0
            \<and> (\<exists>wr. p' = (give_up w p)\<lparr>trace := trace (give_up w p) @ wr\<rparr>
                     \<and> return_writes (wfd p) wr))
       \<and> (transient (writes w) \<and> unat tokens \<le> capacity (writes w) \<longrightarrow>
            (\<exists>wr. create_child w tokens p
                     = Some (Return 0, (give_up w p)\<lparr>trace := trace (give_up w p) @ wr\<rparr>)
                   \<and> return_writes (wfd p) wr
                   \<and> written (wfd p) wr = unat tokens))
       \<and> (\<forall>argv k pre post q res.
            c_strings argv \<and> marker_at argv k pre post \<and> main w argv q = Some res \<longrightarrow>
            (\<exists>q1. res = launch w (argv[k := pre @ ''1'' @ post]) q1))"
proof (intro conjI allI impI)
  have wfd: "wfd (give_up w p) = wfd p"
    by (simp add: give_up_def split: option.splits prod.splits)
  note cc = create_child_gives_up [OF assms, of tokens p]
  {
    fix r p'
    assume run: "create_child w tokens p = Some (r, p')"
    then show "r = Return 0"
      by (auto simp: cc)
    from run have "put_tokens (writes w) tokens (give_up w p) = Some p'"
      by (auto simp: cc)
    from put_tokens_best_effort [OF this]
    show "\<exists>wr. p' = (give_up w p)\<lparr>trace := trace (give_up w p) @ wr\<rparr>
               \<and> return_writes (wfd p) wr"
      by (simp add: wfd)
  }
  {
    assume "transient (writes w) \<and> unat tokens \<le> capacity (writes w)"
    then have "\<exists>wr. put_tokens (writes w) tokens (give_up w p)
                       = Some ((give_up w p)\<lparr>trace := trace (give_up w p) @ wr\<rparr>)
                     \<and> return_writes (wfd (give_up w p)) wr
                     \<and> written (wfd (give_up w p)) wr = unat tokens"
      by (intro put_tokens_returns) simp_all
    then show "\<exists>wr. create_child w tokens p
                     = Some (Return 0, (give_up w p)\<lparr>trace := trace (give_up w p) @ wr\<rparr>)
                   \<and> return_writes (wfd p) wr
                   \<and> written (wfd p) wr = unat tokens"
      by (auto simp: cc wfd)
  }
  {
    fix argv k pre post q res
    assume a: "c_strings argv \<and> marker_at argv k pre post \<and> main w argv q = Some res"
    then have c: "c_strings argv" and m: "marker_at argv k pre post"
      and run: "main w argv q = Some res"
      by simp_all
    have k: "2 \<le> k" "k < length argv"
      using m by (simp_all add: marker_at_def)
    from run marker_found [OF m] k obtain r q1 where g: "get_tokens w q = Some (r, q1)"
      by (auto simp: main_def split: option.splits)
    from get_tokens_gives_up [OF assms g] g
    have "get_tokens w q = Some (Return 0, q1)"
      by simp
    from main_launch [OF m this c] run
    show "\<exists>q1. res = launch w (argv[k := pre @ ''1'' @ post]) q1"
      by (auto simp: decimal_1)
  }
qed

theorem degraded_return_is_immediate_witness:
  "(pipe_ret (example_world\<lparr>pipe_ret := None, execvp_errno := None\<rparr>) = None
      \<or> fork_ret (example_world\<lparr>pipe_ret := None, execvp_errno := None\<rparr>) < 0)
   \<and> transient (writes (example_world\<lparr>pipe_ret := None, execvp_errno := None\<rparr>))
   \<and> unat (13 :: u32)
        \<le> capacity (writes (example_world\<lparr>pipe_ret := None, execvp_errno := None\<rparr>))
   \<and> (\<exists>wr.
         create_child (example_world\<lparr>pipe_ret := None, execvp_errno := None\<rparr>) 13 example_proc
           = Some (Return 0, example_proc\<lparr>trace := [Pipe None] @ wr\<rparr>)
         \<and> return_writes 4 wr \<and> written 4 wr = 13)
   \<and> c_strings example_argv \<and> marker_at example_argv 2 ''-j'' []
   \<and> (\<exists>q1.
         main (example_world\<lparr>pipe_ret := None, execvp_errno := None\<rparr>) example_argv
             (start example_env {0, 1, 2, 3, 4})
           = Some (launch (example_world\<lparr>pipe_ret := None, execvp_errno := None\<rparr>)
                     [''jobhog'', ''mybuild'', ''-j1'', ''--flag''] q1))"
proof -
  define W where "W = example_world\<lparr>pipe_ret := None, execvp_errno := None\<rparr>"
  have h: "pipe_ret W = None \<or> fork_ret W < 0"
    by (simp add: W_def)
  have t: "transient (writes W) \<and> unat (13 :: u32) \<le> capacity (writes W)"
    by (simp add: W_def example_world_def transient_def capacity_def write_errno_def)
  note inst = degraded_return_is_immediate [OF h, of 13 example_proc]
  have run: "\<exists>wr. create_child W 13 example_proc
                     = Some (Return 0, example_proc\<lparr>trace := [Pipe None] @ wr\<rparr>)
                   \<and> return_writes 4 wr \<and> written 4 wr = 13"
    using inst t by (simp add: W_def example_proc_def give_up_def)
  obtain res where m: "main W example_argv (start example_env {0, 1, 2, 3, 4}) = Some res"
    using main_launch [OF ex_marker ex_get_degraded [of None] ex_c_strings]
    by (simp add: W_def)
  with inst ex_marker ex_c_strings
  have "\<exists>q1. res = launch W (example_argv[2 := ''-j'' @ ''1'' @ []]) q1"
    by blast
  with m have "\<exists>q1. main W example_argv (start example_env {0, 1, 2, 3, 4})
                      = Some (launch W [''jobhog'', ''mybuild'', ''-j1'', ''--flag''] q1)"
    by (simp add: example_argv_def)
  with h t run ex_marker ex_c_strings show ?thesis
    unfolding W_def by blast
qed

text \<open>
  Claim C10. The loop of \<open>get_tokens\<close> never counts more than 507 tokens, whatever the
  reads return and whatever the mode of the descriptor (and on a non-blocking descriptor
  the loop does return); so \<open>get_tokens\<close> returns at most 507, which is below 999, and the
  decimal text of that number plus one has at most three characters. No \<^verbatim>\<open>assert\<close> of
  the program fails: \<open>main\<close> never ends in \<open>Abort\<close>.
\<close>

theorem assertions_never_fail:
  "(\<forall>nb t c p'. drain nb fd ch 0 p = Some (t, c, p') \<longrightarrow> unat t \<le> 507)
   \<and> (\<exists>t c p'. drain True fd ch 0 p = Some (t, c, p'))
   \<and> (\<forall>t p1. get_tokens w p = Some (Return t, p1) \<longrightarrow>
         unat t \<le> 507 \<and> t < 999 \<and> length (decimal (unat (t + 1))) \<le> 3)
   \<and> (\<forall>out argv' p'. main w argv p = Some (out, argv', p') \<longrightarrow> out \<noteq> Abort)"
proof (intro conjI allI impI)
  fix nb t c p'
  assume "drain nb fd ch 0 p = Some (t, c, p')"
  from drain_bound [OF _ this] show "unat t \<le> 507"
    by simp
next
  show "\<exists>t c p'. drain True fd ch 0 p = Some (t, c, p')"
    using drain_nonblock_returns [of fd ch 0 p] by auto
next
  fix t p1
  assume "get_tokens w p = Some (Return t, p1)"
  from get_tokens_result [OF this] show t: "unat t \<le> 507"
    by simp
  then show "t < 999"
    by (simp add: word_less_nat_alt)
  have "unat (t + 1) = unat t + 1"
    using t by (simp add: unat_add_lem [THEN iffD1])
  then show "length (decimal (unat (t + 1))) \<le> 3"
    using decimal_length [of "unat t + 1"] t by simp
next
  fix out argv' p'
  assume "main w argv p = Some (out, argv', p')"
  then show "out \<noteq> Abort"
    by (rule main_no_abort)
qed

theorem assertions_never_fail_witness:
  "get_tokens example_world (start example_env {0, 1, 2, 3, 4}) =
       Some (Return 13,
             example_proc\<lparr>fds := {0, 1, 2, 3, 4, 6},
               trace := [Fcntl 3 0, Open ''/proc/self/fd/3'' 5, Read 5 8 8, Read 5 8 5,
                         Read 5 8 (- 1), Close 5, Pipe (Some (5, 6)), Fork 4711, Close 5]\<rparr>)
   \<and> unat (13 :: u32) \<le> 507 \<and> (13 :: u32) < 999
   \<and> length (decimal (unat (13 + 1 :: u32))) \<le> 3
   \<and> Exec ''mybuild'' [''mybuild'', ''-j14'', ''--flag''] \<noteq> Abort"
  using assertions_never_fail [where w = example_world
      and p = "start example_env {0, 1, 2, 3, 4}" and argv = example_argv] ex_get ex_main
  by (simp add: jobhog_def)

end
